theory Spec2Isabelle
  imports
    Main
    "HOL-Library.Word"
    "HOL-Library.Signed_Division"
    "HOL-Library.Multiset"
    "HOL-Library.Monad_Syntax"
begin

unbundle bit_operations_syntax

section \<open>The Spritz permutation state, as spritz.go has it\<close>

text \<open>
  Go's \<^verbatim>\<open>int\<close> is modelled by \<^typ>\<open>int\<close>. Every register is the result of a
  remainder by \<open>n = 256\<close>, and the only unbounded input, the digest size, is divided by 16
  and added to 128, so no operation of the program leaves the 64-bit range for any
  64-bit input: the unbounded integers compute what the machine integers compute.
  Go's \<^verbatim>\<open>/\<close> and \<^verbatim>\<open>%\<close> truncate towards zero (\<open>sdiv\<close>, \<open>smod\<close>) and panic
  on a zero divisor. A run-time panic is the value \<open>None\<close>.
\<close>

type_synonym addr = nat
type_synonym byte = "8 word"

definition go_rem :: "int \<Rightarrow> int \<Rightarrow> int option" where
  "go_rem x y = (if y = 0 then None else Some (x smod y))"

definition go_quo :: "int \<Rightarrow> int \<Rightarrow> int option" where
  "go_quo x y = (if y = 0 then None else Some (x sdiv y))"

text \<open>
  The field \<^verbatim>\<open>s []int\<close> of the state is a slice: a reference to a backing array.
  Copying the struct copies the reference, not the array. The store maps the address of
  each backing array to its contents; \<open>brk\<close> is the next unused address. A slice made by
  \<^verbatim>\<open>make\<close> is never resliced, so its length is the length of the stored list.
  An index outside the slice panics.

  \<^verbatim>\<open>make([]int, n)\<close> with a length taken from the caller panics when \<open>n\<close> is negative,
  and also when \<open>n\<close> is more than the runtime can provide (\<open>makeslice: len out of range\<close>,
  or no memory left). That bound depends on the platform and is not in the source: the
  store carries it as \<open>maxlen\<close>, and no operation changes it.
\<close>

record mem =
  cells :: "addr \<Rightarrow> int list"
  brk :: addr
  maxlen :: int

record state =
  st_n :: int
  st_s :: addr
  st_a :: int
  st_i :: int
  st_j :: int
  st_k :: int
  st_w :: int
  st_z :: int

definition rd :: "mem \<Rightarrow> addr \<Rightarrow> int \<Rightarrow> int option" where
  "rd m p ix = (if 0 \<le> ix \<and> ix < int (length (cells m p))
     then Some (cells m p ! nat ix) else None)"

definition wr :: "mem \<Rightarrow> addr \<Rightarrow> int \<Rightarrow> int \<Rightarrow> mem option" where
  "wr m p ix v = (if 0 \<le> ix \<and> ix < int (length (cells m p))
     then Some (m\<lparr>cells := (cells m)(p := (cells m p)[nat ix := v])\<rparr>) else None)"

definition make_ints :: "int \<Rightarrow> mem \<Rightarrow> (addr \<times> mem) option" where
  "make_ints len m = (if len < 0 then None
     else Some (brk m,
       m\<lparr>cells := (cells m)(brk m := replicate (nat len) 0), brk := Suc (brk m)\<rparr>))"

text \<open>\<^verbatim>\<open>for i := range s.s { s.s[i] = i }\<close>, the length read once.\<close>

function range_fill :: "addr \<Rightarrow> int \<Rightarrow> int \<Rightarrow> mem \<Rightarrow> mem option" where
  "range_fill p len ix m = (if ix < len
     then do { m' \<leftarrow> wr m p ix ix; range_fill p len (ix + 1) m' } else Some m)"
  by pat_completeness auto
termination
  by (relation "measure (\<lambda>(p, len, ix, m). nat (len - ix))") auto

text \<open>\<^verbatim>\<open>initialize\<close> overwrites the whole struct; its parameter is not used.\<close>

definition initialize :: "int \<Rightarrow> mem \<Rightarrow> (state \<times> mem) option" where
  "initialize n m = do {
     (p, m1) \<leftarrow> make_ints 256 m;
     let s = \<lparr>st_n = 256, st_s = p, st_a = 0, st_i = 0, st_j = 0, st_k = 0,
              st_w = 1, st_z = 0\<rparr>;
     m2 \<leftarrow> range_fill (st_s s) (int (length (cells m1 (st_s s)))) 0 m1;
     Some (s, m2) }"

definition update :: "state \<Rightarrow> mem \<Rightarrow> (state \<times> mem) option" where
  "update s m = do {
     i' \<leftarrow> go_rem (st_i s + st_w s) (st_n s);
     let s1 = s\<lparr>st_i := i'\<rparr>;
     si \<leftarrow> rd m (st_s s1) (st_i s1);
     y \<leftarrow> go_rem (st_j s1 + si) (st_n s1);
     sy \<leftarrow> rd m (st_s s1) y;
     j' \<leftarrow> go_rem (st_k s1 + sy) (st_n s1);
     let s2 = s1\<lparr>st_j := j'\<rparr>;
     sj \<leftarrow> rd m (st_s s2) (st_j s2);
     k' \<leftarrow> go_rem (st_i s2 + st_k s2 + sj) (st_n s2);
     let s3 = s2\<lparr>st_k := k'\<rparr>;
     t \<leftarrow> rd m (st_s s3) (st_i s3);
     v \<leftarrow> rd m (st_s s3) (st_j s3);
     m1 \<leftarrow> wr m (st_s s3) (st_i s3) v;
     m2 \<leftarrow> wr m1 (st_s s3) (st_j s3) t;
     Some (s3, m2) }"

definition output_z :: "state \<Rightarrow> mem \<Rightarrow> (int \<times> state) option" where
  "output_z s m = do {
     y1 \<leftarrow> go_rem (st_z s + st_k s) (st_n s);
     sy1 \<leftarrow> rd m (st_s s) y1;
     x1 \<leftarrow> go_rem (st_i s + sy1) (st_n s);
     sx1 \<leftarrow> rd m (st_s s) x1;
     y2 \<leftarrow> go_rem (st_j s + sx1) (st_n s);
     z' \<leftarrow> rd m (st_s s) y2;
     let s1 = s\<lparr>st_z := z'\<rparr>;
     Some (st_z s1, s1) }"

function crush_loop :: "int \<Rightarrow> state \<Rightarrow> mem \<Rightarrow> mem option" where
  "crush_loop ix s m = (if ix < st_n s sdiv 2
     then do {
       let y = (st_n s - 1) - ix;
       x1 \<leftarrow> rd m (st_s s) ix;
       x2 \<leftarrow> rd m (st_s s) y;
       m2 \<leftarrow> (if x1 > x2
               then do { m1 \<leftarrow> wr m (st_s s) ix x2; wr m1 (st_s s) y x1 }
               else do { m1 \<leftarrow> wr m (st_s s) ix x1; wr m1 (st_s s) y x2 });
       crush_loop (ix + 1) s m2 }
     else Some m)"
  by pat_completeness auto
termination
  by (relation "measure (\<lambda>(ix, s, m). nat (st_n s sdiv 2 - ix))") auto

definition crush :: "state \<Rightarrow> mem \<Rightarrow> (state \<times> mem) option" where
  "crush s m = do { m' \<leftarrow> crush_loop 0 s m; Some (s, m') }"

function whip_loop :: "int \<Rightarrow> int \<Rightarrow> state \<Rightarrow> mem \<Rightarrow> (state \<times> mem) option" where
  "whip_loop r ix s m = (if ix < r
     then do { (s', m') \<leftarrow> update s m; whip_loop r (ix + 1) s' m' }
     else Some (s, m))"
  by pat_completeness auto
termination
  by (relation "measure (\<lambda>(r, ix, s, m). nat (r - ix))") auto

definition whip :: "state \<Rightarrow> mem \<Rightarrow> (state \<times> mem) option" where
  "whip s m = do {
     let r = st_n s * 2;
     (s1, m1) \<leftarrow> whip_loop r 0 s m;
     w' \<leftarrow> go_rem (st_w s1 + 2) (st_n s1);
     Some (s1\<lparr>st_w := w'\<rparr>, m1) }"

definition shuffle :: "state \<Rightarrow> mem \<Rightarrow> (state \<times> mem) option" where
  "shuffle s m = do {
     (s1, m1) \<leftarrow> whip s m;
     (s2, m2) \<leftarrow> crush s1 m1;
     (s3, m3) \<leftarrow> whip s2 m2;
     (s4, m4) \<leftarrow> crush s3 m3;
     (s5, m5) \<leftarrow> whip s4 m4;
     Some (s5\<lparr>st_a := 0\<rparr>, m5) }"

definition absorbStop :: "state \<Rightarrow> mem \<Rightarrow> (state \<times> mem) option" where
  "absorbStop s m = do {
     (s1, m1) \<leftarrow> (if st_a s = st_n s sdiv 2 then shuffle s m else Some (s, m));
     a' \<leftarrow> go_rem (st_a s1 + 1) (st_n s1);
     Some (s1\<lparr>st_a := a'\<rparr>, m1) }"

definition absorbNibble :: "int \<Rightarrow> state \<Rightarrow> mem \<Rightarrow> (state \<times> mem) option" where
  "absorbNibble x s m = do {
     (s1, m1) \<leftarrow> (if st_a s = st_n s sdiv 2 then shuffle s m else Some (s, m));
     y \<leftarrow> go_rem (st_n s1 sdiv 2 + x) (st_n s1);
     t \<leftarrow> rd m1 (st_s s1) (st_a s1);
     v \<leftarrow> rd m1 (st_s s1) y;
     m2 \<leftarrow> wr m1 (st_s s1) (st_a s1) v;
     m3 \<leftarrow> wr m2 (st_s s1) y t;
     a' \<leftarrow> go_rem (st_a s1 + 1) (st_n s1);
     Some (s1\<lparr>st_a := a'\<rparr>, m3) }"

definition absorbValue :: "int \<Rightarrow> state \<Rightarrow> mem \<Rightarrow> (state \<times> mem) option" where
  "absorbValue b s m = do {
     let d = st_n s sdiv 16;
     lo \<leftarrow> go_rem b d;
     (s1, m1) \<leftarrow> absorbNibble lo s m;
     hi \<leftarrow> go_quo b d;
     absorbNibble hi s1 m1 }"

fun absorb :: "int list \<Rightarrow> state \<Rightarrow> mem \<Rightarrow> (state \<times> mem) option" where
  "absorb [] s m = Some (s, m)"
| "absorb (v # msg) s m = do { (s1, m1) \<leftarrow> absorbValue v s m; absorb msg s1 m1 }"

definition keySetup :: "int list \<Rightarrow> state \<Rightarrow> mem \<Rightarrow> (state \<times> mem) option" where
  "keySetup key s m = do {
     (s1, m1) \<leftarrow> absorb key s m;
     (if st_a s1 > 0 then shuffle s1 m1 else Some (s1, m1)) }"

definition drip :: "state \<Rightarrow> mem \<Rightarrow> (int \<times> state \<times> mem) option" where
  "drip s m = do {
     (s1, m1) \<leftarrow> (if st_a s > 0 then shuffle s m else Some (s, m));
     (s2, m2) \<leftarrow> update s1 m1;
     (v, s3) \<leftarrow> output_z s2 m2;
     Some (v, s3, m2) }"

text \<open>
  \<^verbatim>\<open>squeeze(out)\<close> overwrites every element of the caller's slice \<open>out\<close>, which is
  local to \<^verbatim>\<open>Sum\<close>; it is passed and returned as a list.
\<close>

fun squeeze_loop :: "int list \<Rightarrow> state \<Rightarrow> mem \<Rightarrow> (int list \<times> state \<times> mem) option" where
  "squeeze_loop [] s m = Some ([], s, m)"
| "squeeze_loop (x # out) s m = do {
     (v, s1, m1) \<leftarrow> drip s m;
     (vs, s2, m2) \<leftarrow> squeeze_loop out s1 m1;
     Some (v # vs, s2, m2) }"

definition squeeze :: "int list \<Rightarrow> state \<Rightarrow> mem \<Rightarrow> (int list \<times> state \<times> mem) option" where
  "squeeze out s m = do {
     (s1, m1) \<leftarrow> (if st_a s > 0 then shuffle s m else Some (s, m));
     squeeze_loop out s1 m1 }"

section \<open>The stream cipher and the hash\<close>

text \<open>
  A \<^verbatim>\<open>stream\<close> and a \<^verbatim>\<open>digest\<close> hold a pointer to their state struct, which no
  other handle shares in what follows: the struct is passed by value and returned updated.
  Its field \<open>st_s\<close> stays an address into the store, so a copy of the struct has the same
  backing array.
\<close>

record stream =
  stream_s :: state

record digest =
  d_size :: int
  d_s :: state

definition NewStream :: "byte list \<Rightarrow> mem \<Rightarrow> (stream \<times> mem) option" where
  "NewStream key m = do {
     (s, m1) \<leftarrow> initialize 256 m;
     let k = map uint key;
     (s1, m2) \<leftarrow> keySetup k s m1;
     Some (\<lparr>stream_s = s1\<rparr>, m2) }"

text \<open>
  \<^verbatim>\<open>for i, v := range src { dst[i] = v ^ byte(s.s.drip()) }\<close>. The slices \<open>dst\<close> and
  \<open>src\<close> are the caller's and may share their bytes, wholly or in part. The caller's
  bytes are one list \<open>buf\<close>, and a slice is its offset and its length in \<open>buf\<close> (two
  separate arrays are two disjoint ranges of it); a slice lies within its array, and a
  descriptor that does not is refused. The length of \<open>src\<close> is read once: the loop
  runs that many times, \<open>ix\<close> counting up from 0. Each round reads \<open>src[ix]\<close> as the
  bytes are then, calls \<open>drip\<close>, and writes \<open>dst[ix]\<close>; an index beyond the length of
  \<open>dst\<close> panics.
\<close>

type_synonym bslice = "nat \<times> nat"

fun xor_loop ::
  "nat \<Rightarrow> nat \<Rightarrow> byte list \<Rightarrow> bslice \<Rightarrow> bslice \<Rightarrow> state \<Rightarrow> mem \<Rightarrow>
   (byte list \<times> state \<times> mem) option" where
  "xor_loop 0 ix buf dst src s m = Some (buf, s, m)"
| "xor_loop (Suc k) ix buf dst src s m = do {
     v \<leftarrow> (if fst src + ix < length buf then Some (buf ! (fst src + ix)) else None);
     (x, s1, m1) \<leftarrow> drip s m;
     buf1 \<leftarrow> (if ix < snd dst \<and> fst dst + ix < length buf
               then Some (buf[fst dst + ix := v XOR word_of_int x]) else None);
     xor_loop k (Suc ix) buf1 dst src s1 m1 }"

definition XORKeyStream ::
  "stream \<Rightarrow> byte list \<Rightarrow> bslice \<Rightarrow> bslice \<Rightarrow> mem \<Rightarrow> (byte list \<times> stream \<times> mem) option" where
  "XORKeyStream c buf dst src m = do {
     (buf1, s1, m1) \<leftarrow> xor_loop (snd src) 0 buf dst src (stream_s c) m;
     Some (buf1, \<lparr>stream_s = s1\<rparr>, m1) }"

definition Reset :: "digest \<Rightarrow> mem \<Rightarrow> (digest \<times> mem) option" where
  "Reset d m = do { (s, m1) \<leftarrow> initialize 256 m; Some (d\<lparr>d_s := s\<rparr>, m1) }"

text \<open>
  \<^verbatim>\<open>NewHash\<close> declares a zero state and resets it at once; \<^verbatim>\<open>Reset\<close> overwrites
  every field, so the handle is built from the initialised state. No check of the size is made.
\<close>

definition NewHash :: "int \<Rightarrow> mem \<Rightarrow> (digest \<times> mem) option" where
  "NewHash sz m = do {
     (s, m1) \<leftarrow> initialize 256 m;
     Some (\<lparr>d_size = sz, d_s = s\<rparr>, m1) }"

text \<open>
  \<^verbatim>\<open>Sum\<close> starts with \<^verbatim>\<open>s := *d.s\<close>: the struct is copied, with its registers and its
  slice reference. The copy is dropped at the end; the store, which the copy wrote through
  its slice, is returned. \<^verbatim>\<open>make([]int, d.size)\<close> panics on a negative size and on a
  size beyond \<open>maxlen\<close>; the slice it makes is local to \<^verbatim>\<open>Sum\<close>.
\<close>

definition Sum :: "digest \<Rightarrow> byte list \<Rightarrow> mem \<Rightarrow> (byte list \<times> mem) option" where
  "Sum d b m = do {
     let s = d_s d;
     (s1, m1) \<leftarrow> absorbStop s m;
     (s2, m2) \<leftarrow> absorb [d_size d] s1 m1;
     out \<leftarrow> (if d_size d < 0 \<or> maxlen m2 < d_size d then None
             else Some (replicate (nat (d_size d)) (0 :: int)));
     (out1, s3, m3) \<leftarrow> squeeze out s2 m2;
     let h = map word_of_int out1;
     Some (b @ h, m3) }"

definition Write :: "digest \<Rightarrow> byte list \<Rightarrow> mem \<Rightarrow> (nat \<times> digest \<times> mem) option" where
  "Write d p m = do {
     let msg = map uint p;
     (s1, m1) \<leftarrow> absorb msg (d_s d) m;
     Some (length p, d\<lparr>d_s := s1\<rparr>, m1) }"

definition Size :: "digest \<Rightarrow> int" where
  "Size d = d_size d"

definition BlockSize :: "digest \<Rightarrow> int" where
  "BlockSize d = 1"

section \<open>Definitions used in the proofs\<close>

definition put :: "mem \<Rightarrow> addr \<Rightarrow> int list \<Rightarrow> mem" where
  "put m p xs = m\<lparr>cells := (cells m)(p := xs)\<rparr>"

definition perm256 :: "int list \<Rightarrow> bool" where
  "perm256 xs \<longleftrightarrow> sort xs = [0..255]"

definition reg_ok :: "int \<Rightarrow> bool" where
  "reg_ok x \<longleftrightarrow> 0 \<le> x \<and> x < 256"

definition wf :: "state \<Rightarrow> mem \<Rightarrow> bool" where
  "wf s m \<longleftrightarrow> st_n s = 256 \<and> perm256 (cells m (st_s s)) \<and>
     reg_ok (st_a s) \<and> reg_ok (st_i s) \<and> reg_ok (st_j s) \<and> reg_ok (st_k s) \<and>
     reg_ok (st_w s) \<and> reg_ok (st_z s)"

definition update_spec :: "state \<Rightarrow> mem \<Rightarrow> state \<times> mem" where
  "update_spec s m =
     (let xs = cells m (st_s s);
          i' = (st_i s + st_w s) mod st_n s;
          y = (st_j s + xs ! nat i') mod st_n s;
          j' = (st_k s + xs ! nat y) mod st_n s;
          k' = (i' + st_k s + xs ! nat j') mod st_n s
      in (s\<lparr>st_i := i', st_j := j', st_k := k'\<rparr>,
          put m (st_s s) (xs[nat i' := xs ! nat j', nat j' := xs ! nat i'])))"

definition tr :: "addr \<Rightarrow> mem \<Rightarrow> state \<times> mem \<Rightarrow> state \<times> mem" where
  "tr p2 m2 r = (case r of (s', m') \<Rightarrow> (s'\<lparr>st_s := p2\<rparr>, put m2 p2 (cells m' (st_s s'))))"

definition ok :: "(state \<times> mem) option \<Rightarrow> bool" where
  "ok r = (case r of None \<Rightarrow> False | Some (s', m') \<Rightarrow> wf s' m')"

definition okv :: "('a \<Rightarrow> bool) \<Rightarrow> ('a \<times> state \<times> mem) option \<Rightarrow> bool" where
  "okv Q r = (case r of None \<Rightarrow> False | Some (v, s', m') \<Rightarrow> Q v \<and> wf s' m')"

definition trv :: "addr \<Rightarrow> mem \<Rightarrow> 'a \<times> state \<times> mem \<Rightarrow> 'a \<times> state \<times> mem" where
  "trv p2 m2 r = (case r of (v, s', m') \<Rightarrow> (v, s'\<lparr>st_s := p2\<rparr>, put m2 p2 (cells m' (st_s s'))))"

datatype hash_op = OpWrite "byte list" | OpSum "byte list" | OpReset

fun is_OpSum :: "hash_op \<Rightarrow> bool" where
  "is_OpSum (OpSum b) = True"
| "is_OpSum _ = False"

fun hash_step :: "hash_op \<Rightarrow> digest \<Rightarrow> mem \<Rightarrow> (digest \<times> mem) option" where
  "hash_step (OpWrite p) d m = do { (n, d1, m1) \<leftarrow> Write d p m; Some (d1, m1) }"
| "hash_step (OpSum b) d m = do { (h, m1) \<leftarrow> Sum d b m; Some (d, m1) }"
| "hash_step OpReset d m = Reset d m"

fun hash_run :: "hash_op list \<Rightarrow> digest \<Rightarrow> mem \<Rightarrow> (digest \<times> mem) option" where
  "hash_run [] d m = Some (d, m)"
| "hash_run (x # ops) d m = do { (d1, m1) \<leftarrow> hash_step x d m; hash_run ops d1 m1 }"

fun stream_run ::
  "(byte list \<times> bslice \<times> bslice) list \<Rightarrow> stream \<Rightarrow> mem \<Rightarrow> (stream \<times> mem) option" where
  "stream_run [] c m = Some (c, m)"
| "stream_run ((buf, dst, src) # ops) c m = do {
     (buf1, c1, m1) \<leftarrow> XORKeyStream c buf dst src m;
     stream_run ops c1 m1 }"

fun bad_call :: "byte list \<times> bslice \<times> bslice \<Rightarrow> bool" where
  "bad_call (buf, dst, src) \<longleftrightarrow> snd dst < snd src
     \<or> length buf < fst dst + snd dst \<or> length buf < fst src + snd src"

definition init_state :: "addr \<Rightarrow> state" where
  "init_state p = \<lparr>st_n = 256, st_s = p, st_a = 0, st_i = 0, st_j = 0, st_k = 0,
     st_w = 1, st_z = 0\<rparr>"

definition init_mem :: "mem \<Rightarrow> mem" where
  "init_mem m = m\<lparr>cells := (cells m)(brk m := [0..255]), brk := Suc (brk m)\<rparr>"

fun write_all :: "byte list list \<Rightarrow> digest \<Rightarrow> mem \<Rightarrow> (digest \<times> mem) option" where
  "write_all [] d m = Some (d, m)"
| "write_all (p # ps) d m = do { (n, d1, m1) \<leftarrow> Write d p m; write_all ps d1 m1 }"

definition mem0 :: mem where
  "mem0 = \<lparr>cells = (\<lambda>p. []), brk = 0, maxlen = 35184372088832\<rparr>"

definition hash_of :: "int \<Rightarrow> byte list \<Rightarrow> mem \<Rightarrow> byte list option" where
  "hash_of sz msg m = do {
     (d, m1) \<leftarrow> NewHash sz m;
     (n, d1, m2) \<leftarrow> Write d msg m1;
     (h, m3) \<leftarrow> Sum d1 [] m2;
     Some h }"

definition sum_core :: "int \<Rightarrow> nat \<Rightarrow> state \<Rightarrow> mem \<Rightarrow> (int list \<times> state \<times> mem) option" where
  "sum_core sz k s m = do {
     (s1, m1) \<leftarrow> absorbStop s m;
     (s2, m2) \<leftarrow> absorb [sz] s1 m1;
     squeeze (replicate k 0) s2 m2 }"

text \<open>
  For the evaluation of the program on concrete inputs, the 256 entries of the array are
  kept in a binary trie, indexed by the bits of the index from the lowest one; an update
  walks down to the leaf and rebuilds the path (\<open>updz\<close>, with the path as a zipper).
  \<open>tmem t b\<close> is the store whose only array, at address 0, has the entries of \<open>t\<close>.
\<close>

datatype trie = L int | N trie trie

fun look :: "trie \<Rightarrow> int \<Rightarrow> int" where
  "look (L v) n = v"
| "look (N l r) n = (if even n then look l (n div 2) else look r (n div 2))"

fun upd :: "nat \<Rightarrow> trie \<Rightarrow> int \<Rightarrow> int \<Rightarrow> trie" where
  "upd 0 t n v = L v"
| "upd (Suc d) (L u) n v = (if even n then N (upd d (L u) (n div 2) v) (L u)
     else N (L u) (upd d (L u) (n div 2) v))"
| "upd (Suc d) (N l r) n v = (if even n then N (upd d l (n div 2) v) r
     else N l (upd d r (n div 2) v))"

datatype frame = FL trie | FR trie

fun plug :: "frame list \<Rightarrow> trie \<Rightarrow> trie" where
  "plug [] t = t"
| "plug (FL l # fs) t = plug fs (N l t)"
| "plug (FR r # fs) t = plug fs (N t r)"

fun updz :: "frame list \<Rightarrow> nat \<Rightarrow> trie \<Rightarrow> int \<Rightarrow> int \<Rightarrow> trie" where
  "updz fs 0 t n v = plug fs (L v)"
| "updz fs (Suc d) (L u) n v = (if even n then updz (FR (L u) # fs) d (L u) (n div 2) v
     else updz (FL (L u) # fs) d (L u) (n div 2) v)"
| "updz fs (Suc d) (N l r) n v = (if even n then updz (FR r # fs) d l (n div 2) v
     else updz (FL l # fs) d r (n div 2) v)"

definition tl8 :: "trie \<Rightarrow> int list" where
  "tl8 t = map (\<lambda>n. look t (int n)) [0..<256]"

definition tmem :: "trie \<Rightarrow> addr \<Rightarrow> mem" where
  "tmem t b = \<lparr>cells = (\<lambda>p. [])(0 := tl8 t), brk = b, maxlen = 35184372088832\<rparr>"

definition d8 :: nat where
  "d8 = Suc (Suc (Suc (Suc (Suc (Suc (Suc (Suc 0)))))))"

section \<open>Lemmas\<close>

declare range_fill.simps [simp del] crush_loop.simps [simp del] whip_loop.simps [simp del]

lemma cells_put: "cells (put m p xs) q = (if q = p then xs else cells m q)"
  by (simp add: put_def)

lemma cells_put_same [simp]: "cells (put m p xs) p = xs"
  by (simp add: put_def)

lemma brk_put [simp]: "brk (put m p xs) = brk m"
  by (simp add: put_def)

lemma put_put [simp]: "put (put m p xs) p ys = put m p ys"
  by (simp add: put_def)

lemma put_same [simp]: "put m p (cells m p) = m"
  by (simp add: put_def)

lemma wr_put: "wr m p ix v = (if 0 \<le> ix \<and> ix < int (length (cells m p))
     then Some (put m p ((cells m p)[nat ix := v])) else None)"
  by (simp add: wr_def put_def)

lemma range_fill_eq:
  "0 \<le> ix \<Longrightarrow> ix \<le> len \<Longrightarrow> len = int (length (cells m p)) \<Longrightarrow>
   range_fill p len ix m = Some (put m p (take (nat ix) (cells m p) @ [ix..len - 1]))"
proof (induction p len ix m rule: range_fill.induct)
  case (1 p len ix m)
  show ?case
  proof (cases "ix < len")
    case False
    with 1 have "ix = len" by simp
    with 1 show ?thesis by (simp add: range_fill.simps)
  next
    case True
    let ?m' = "put m p ((cells m p)[nat ix := ix])"
    have w: "wr m p ix ix = Some ?m'" using 1 True by (simp add: wr_put)
    have ih: "range_fill p len (ix + 1) ?m' =
       Some (put ?m' p (take (nat (ix + 1)) (cells ?m' p) @ [ix + 1..len - 1]))"
      using 1 True by (intro "1.IH"[OF True w]) simp_all
    have l: "nat ix < length (cells m p)" using 1 True by simp
    have "take (nat (ix + 1)) ((cells m p)[nat ix := ix]) = take (nat ix) (cells m p) @ [ix]"
      using l 1 by (simp add: nat_add_distrib take_Suc_conv_app_nth)
    moreover have "[ix..len - 1] = ix # [ix + 1..len - 1]"
      using True by (simp add: upto_rec1)
    ultimately show ?thesis
      using True w ih by (subst range_fill.simps) simp
  qed
qed

lemma initialize_eq:
  "initialize n m = Some (\<lparr>st_n = 256, st_s = brk m, st_a = 0, st_i = 0, st_j = 0, st_k = 0,
       st_w = 1, st_z = 0\<rparr>,
     m\<lparr>cells := (cells m)(brk m := [0..255]), brk := Suc (brk m)\<rparr>)"
proof -
  let ?m1 = "m\<lparr>cells := (cells m)(brk m := replicate 256 0), brk := Suc (brk m)\<rparr>"
  have mk: "make_ints 256 m = Some (brk m, ?m1)"
    by (simp add: make_ints_def)
  have len: "int (length (cells ?m1 (brk m))) = 256"
    by simp
  have "range_fill (brk m) 256 0 ?m1 = Some (put ?m1 (brk m) (take (nat 0) (cells ?m1 (brk m)) @ [0..256 - 1]))"
    by (rule range_fill_eq) simp_all
  then have rf: "range_fill (brk m) 256 0 ?m1 = Some (put ?m1 (brk m) [0..255])"
    by (simp del: upto_rec_numeral)
  have "put ?m1 (brk m) [0..255] = m\<lparr>cells := (cells m)(brk m := [0..255]), brk := Suc (brk m)\<rparr>"
    by (simp add: put_def del: upto_rec_numeral)
  then show ?thesis
    unfolding initialize_def mk by (simp add: rf del: upto_rec_numeral)
qed

declare upto_rec_numeral [simp del]

lemma perm256_mset: "perm256 xs \<longleftrightarrow> mset xs = mset [0..255]"
proof
  assume "perm256 xs"
  then have "mset (sort xs) = mset [0..255]" by (simp add: perm256_def)
  then show "mset xs = mset [0..255]" by simp
next
  assume "mset xs = mset [0..255]"
  then have "sort xs = [0..255]"
    by (intro properties_for_sort) (simp_all add: sorted_upto)
  then show "perm256 xs" by (simp add: perm256_def)
qed

lemma perm256_length: "perm256 xs \<Longrightarrow> length xs = 256"
proof -
  assume "perm256 xs"
  then have "size (mset xs) = size (mset [0..255])" by (simp add: perm256_mset)
  then show ?thesis by simp
qed

lemma perm256_set: "perm256 xs \<Longrightarrow> set xs = {0..255}"
proof -
  assume "perm256 xs"
  then have "set_mset (mset xs) = set_mset (mset [0..255])" by (simp add: perm256_mset)
  then show ?thesis by simp
qed

lemma perm256_nth: "perm256 xs \<Longrightarrow> reg_ok ix \<Longrightarrow> reg_ok (xs ! nat ix)"
proof -
  assume p: "perm256 xs" and "reg_ok ix"
  then have "nat ix < length xs" by (auto simp add: perm256_length reg_ok_def)
  then have "xs ! nat ix \<in> set xs" by simp
  then show ?thesis using p by (simp add: perm256_set reg_ok_def)
qed

lemma perm256_swap:
  "perm256 xs \<Longrightarrow> 0 \<le> a \<Longrightarrow> a < 256 \<Longrightarrow> 0 \<le> b \<Longrightarrow> b < 256 \<Longrightarrow>
   perm256 (xs[nat a := xs ! nat b, nat b := xs ! nat a])"
  by (simp add: perm256_mset perm256_length mset_swap)

lemma perm256_upto: "perm256 [0..255]"
  by (simp add: perm256_mset)

lemma go_rem_256: "0 \<le> x \<Longrightarrow> go_rem x 256 = Some (x mod 256)"
  by (simp add: go_rem_def signed_modulo_int_def sgn_if)

lemma reg_ok_mod: "reg_ok (x mod 256)"
  by (simp add: reg_ok_def)

lemma rd_eq: "0 \<le> ix \<Longrightarrow> ix < int (length (cells m p)) \<Longrightarrow> rd m p ix = Some (cells m p ! nat ix)"
  by (simp add: rd_def)

lemma rd_perm: "perm256 (cells m p) \<Longrightarrow> reg_ok ix \<Longrightarrow> rd m p ix = Some (cells m p ! nat ix)"
  by (simp add: rd_def perm256_length reg_ok_def)

lemma wr_perm: "perm256 (cells m p) \<Longrightarrow> reg_ok ix \<Longrightarrow>
   wr m p ix v = Some (put m p ((cells m p)[nat ix := v]))"
  by (simp add: wr_put perm256_length reg_ok_def)

lemma update_wf_eq:
  assumes "wf s m"
  shows "update s m = Some (update_spec s m)"
proof -
  let ?xs = "cells m (st_s s)"
  define i' where "i' = (st_i s + st_w s) mod 256"
  define y where "y = (st_j s + ?xs ! nat i') mod 256"
  define j' where "j' = (st_k s + ?xs ! nat y) mod 256"
  define k' where "k' = (i' + st_k s + ?xs ! nat j') mod 256"
  from assms have n: "st_n s = 256" and p: "perm256 ?xs"
    and r: "reg_ok (st_i s)" "reg_ok (st_j s)" "reg_ok (st_k s)" "reg_ok (st_w s)"
    by (simp_all add: wf_def)
  have len: "length ?xs = 256" using p by (rule perm256_length)
  have ri: "reg_ok i'" and ry: "reg_ok y" and rj: "reg_ok j'" and rk: "reg_ok k'"
    by (simp_all add: i'_def y_def j'_def k'_def reg_ok_mod)
  have e: "reg_ok (?xs ! nat i')" "reg_ok (?xs ! nat y)" "reg_ok (?xs ! nat j')"
    using p ri ry rj by (simp_all add: perm256_nth)
  have g1: "go_rem (st_i s + st_w s) 256 = Some i'"
    using r by (simp add: go_rem_256 reg_ok_def i'_def)
  have g2: "go_rem (st_j s + ?xs ! nat i') 256 = Some y"
    using r e by (simp add: go_rem_256 reg_ok_def y_def)
  have g3: "go_rem (st_k s + ?xs ! nat y) 256 = Some j'"
    using r e by (simp add: go_rem_256 reg_ok_def j'_def)
  have g4: "go_rem (i' + st_k s + ?xs ! nat j') 256 = Some k'"
    using r e ri by (simp add: go_rem_256 reg_ok_def k'_def)
  have r1: "rd m (st_s s) i' = Some (?xs ! nat i')"
    and r2: "rd m (st_s s) y = Some (?xs ! nat y)"
    and r3: "rd m (st_s s) j' = Some (?xs ! nat j')"
    using p ri ry rj by (simp_all add: rd_perm)
  have w1: "wr m (st_s s) i' (?xs ! nat j') = Some (put m (st_s s) (?xs[nat i' := ?xs ! nat j']))"
    using p ri by (simp add: wr_perm)
  have w2: "wr (put m (st_s s) (?xs[nat i' := ?xs ! nat j'])) (st_s s) j' (?xs ! nat i')
      = Some (put m (st_s s) (?xs[nat i' := ?xs ! nat j', nat j' := ?xs ! nat i']))"
    using rj len by (simp add: wr_put reg_ok_def)
  have "update s m = Some (s\<lparr>st_i := i', st_j := j', st_k := k'\<rparr>,
      put m (st_s s) (?xs[nat i' := ?xs ! nat j', nat j' := ?xs ! nat i']))"
    unfolding update_def by (simp add: n g1 g2 g3 g4 r1 r2 r3 w1 w2)
  also have "\<dots> = Some (update_spec s m)"
    by (simp add: update_spec_def Let_def n i'_def y_def j'_def k'_def)
  finally show ?thesis .
qed

lemma update_spec_wf:
  assumes "wf s m"
  shows "wf (fst (update_spec s m)) (snd (update_spec s m))"
proof -
  let ?xs = "cells m (st_s s)"
  from assms have n: "st_n s = 256" and p: "perm256 ?xs"
    and r: "reg_ok (st_a s)" "reg_ok (st_w s)" "reg_ok (st_z s)"
    by (simp_all add: wf_def)
  have "perm256 (?xs[nat ((st_i s + st_w s) mod 256) := ?xs ! nat j, nat j := ?xs ! nat ((st_i s + st_w s) mod 256)])"
    if "reg_ok j" for j
    using p that reg_ok_mod[of "st_i s + st_w s"] by (intro perm256_swap) (simp_all add: reg_ok_def)
  then show ?thesis
    using r by (simp add: update_spec_def Let_def wf_def n reg_ok_mod)
qed

lemma tr_simp [simp]: "tr p2 m2 (s', m') = (s'\<lparr>st_s := p2\<rparr>, put m2 p2 (cells m' (st_s s')))"
  by (simp add: tr_def)

lemma rd_cong: "cells m2 p2 = cells m p \<Longrightarrow> rd m2 p2 ix = rd m p ix"
  by (simp add: rd_def)

lemma wr_tr: "cells m2 p2 = cells m p \<Longrightarrow>
  wr m2 p2 ix v = map_option (\<lambda>m'. put m2 p2 (cells m' p)) (wr m p ix v)"
  by (simp add: wr_put)

lemma update_tr:
  assumes "cells m2 p2 = cells m (st_s s)"
  shows "update (s\<lparr>st_s := p2\<rparr>) m2 = map_option (tr p2 m2) (update s m)"
  unfolding update_def Let_def
  using assms
  by (auto simp: rd_cong[of m2 p2 m "st_s s"] wr_tr[of _ p2 _ "st_s s"] wr_put
      split: Option.bind_split if_splits)

lemma ok_Some [simp]: "ok (Some (s, m)) = wf s m"
  by (simp add: ok_def)

lemma okv_Some [simp]: "okv Q (Some (v, s, m)) = (Q v \<and> wf s m)"
  by (simp add: okv_def)

lemma okE: "ok r \<Longrightarrow> (\<And>s' m'. r = Some (s', m') \<Longrightarrow> wf s' m' \<Longrightarrow> thesis) \<Longrightarrow> thesis"
  by (auto simp: ok_def split: option.splits)

lemma okvE: "okv Q r \<Longrightarrow> (\<And>v s' m'. r = Some (v, s', m') \<Longrightarrow> Q v \<Longrightarrow> wf s' m' \<Longrightarrow> thesis) \<Longrightarrow> thesis"
  by (auto simp: okv_def split: option.splits)

lemma ok_bind:
  "ok x \<Longrightarrow> (\<And>s' m'. wf s' m' \<Longrightarrow> ok (f s' m')) \<Longrightarrow> ok (x \<bind> (\<lambda>(s', m'). f s' m'))"
  by (erule okE) simp

lemma ok_bind_v:
  "ok x \<Longrightarrow> (\<And>s' m'. wf s' m' \<Longrightarrow> okv Q (f s' m')) \<Longrightarrow> okv Q (x \<bind> (\<lambda>(s', m'). f s' m'))"
  by (erule okE) simp

lemma ok_if: "(c \<Longrightarrow> ok x) \<Longrightarrow> (\<not> c \<Longrightarrow> ok y) \<Longrightarrow> ok (if c then x else y)"
  by simp

lemma wf_regs:
  "wf s m \<Longrightarrow> reg_ok v \<Longrightarrow> wf (s\<lparr>st_a := v\<rparr>) m"
  "wf s m \<Longrightarrow> reg_ok v \<Longrightarrow> wf (s\<lparr>st_w := v\<rparr>) m"
  "wf s m \<Longrightarrow> reg_ok v \<Longrightarrow> wf (s\<lparr>st_z := v\<rparr>) m"
  by (simp_all add: wf_def)

lemma update_ok: "wf s m \<Longrightarrow> ok (update s m)"
  using update_spec_wf[of s m] by (cases "update_spec s m") (simp add: update_wf_eq)

lemma output_z_ok:
  assumes "wf s m"
  shows "\<exists>v. output_z s m = Some (v, s\<lparr>st_z := v\<rparr>) \<and> reg_ok v"
proof -
  let ?xs = "cells m (st_s s)"
  from assms have n: "st_n s = 256" and p: "perm256 ?xs"
    and r: "reg_ok (st_i s)" "reg_ok (st_j s)" "reg_ok (st_k s)" "reg_ok (st_z s)"
    by (simp_all add: wf_def)
  define y1 where "y1 = (st_z s + st_k s) mod 256"
  define x1 where "x1 = (st_i s + ?xs ! nat y1) mod 256"
  define y2 where "y2 = (st_j s + ?xs ! nat x1) mod 256"
  have ry: "reg_ok y1" "reg_ok x1" "reg_ok y2"
    by (simp_all add: y1_def x1_def y2_def reg_ok_mod)
  have e: "reg_ok (?xs ! nat y1)" "reg_ok (?xs ! nat x1)" "reg_ok (?xs ! nat y2)"
    using p ry by (simp_all add: perm256_nth)
  have g1: "go_rem (st_z s + st_k s) 256 = Some y1"
    using r by (simp add: go_rem_256 reg_ok_def y1_def)
  have g2: "go_rem (st_i s + ?xs ! nat y1) 256 = Some x1"
    using r e by (simp add: go_rem_256 reg_ok_def x1_def)
  have g3: "go_rem (st_j s + ?xs ! nat x1) 256 = Some y2"
    using r e by (simp add: go_rem_256 reg_ok_def y2_def)
  have r1: "rd m (st_s s) y1 = Some (?xs ! nat y1)"
    and r2: "rd m (st_s s) x1 = Some (?xs ! nat x1)"
    and r3: "rd m (st_s s) y2 = Some (?xs ! nat y2)"
    using p ry by (simp_all add: rd_perm)
  have "output_z s m = Some (?xs ! nat y2, s\<lparr>st_z := ?xs ! nat y2\<rparr>)"
    unfolding output_z_def by (simp add: n g1 g2 g3 r1 r2 r3)
  then show ?thesis using e by blast
qed

lemma crush_loop_ok:
  "st_n s = 256 \<Longrightarrow> perm256 (cells m (st_s s)) \<Longrightarrow> 0 \<le> ix \<Longrightarrow>
   \<exists>xs. crush_loop ix s m = Some (put m (st_s s) xs) \<and> perm256 xs"
proof (induction ix s m rule: crush_loop.induct)
  case (1 ix s m)
  let ?p = "st_s s"
  let ?xs = "cells m ?p"
  have sd: "st_n s sdiv 2 = 128" using 1 by (simp add: signed_divide_int_def)
  show ?case
  proof (cases "ix < 128")
    case False
    then have "crush_loop ix s m = Some (put m ?p ?xs)"
      using sd by (subst crush_loop.simps) simp
    then show ?thesis using 1 by blast
  next
    case True
    let ?y = "255 - ix"
    have ri: "reg_ok ix" and ry: "reg_ok ?y" using True 1 by (simp_all add: reg_ok_def)
    define ys where "ys = (if ?xs ! nat ix > ?xs ! nat ?y
       then ?xs[nat ix := ?xs ! nat ?y, nat ?y := ?xs ! nat ix] else ?xs)"
    have len: "length ?xs = 256" using 1 by (simp add: perm256_length)
    have pys: "perm256 ys"
      using 1 ri ry by (simp add: ys_def perm256_swap reg_ok_def)
    have r1: "rd m ?p ix = Some (?xs ! nat ix)" and r2: "rd m ?p ?y = Some (?xs ! nat ?y)"
      using 1 ri ry by (simp_all add: rd_perm)
    have w: "(if ?xs ! nat ix > ?xs ! nat ?y
        then do { m1 \<leftarrow> wr m ?p ix (?xs ! nat ?y); wr m1 ?p ?y (?xs ! nat ix) }
        else do { m1 \<leftarrow> wr m ?p ix (?xs ! nat ix); wr m1 ?p ?y (?xs ! nat ?y) })
        = Some (put m ?p ys)"
      using ri ry len by (simp add: wr_put ys_def reg_ok_def)
    have "\<exists>xs. crush_loop (ix + 1) s (put m ?p ys) = Some (put (put m ?p ys) ?p xs) \<and> perm256 xs"
      using True sd 1(2,4) pys r1 r2 w
      by (intro "1.IH"[of ?y "?xs ! nat ix" "?xs ! nat ?y"]) simp_all
    then obtain zs where "crush_loop (ix + 1) s (put m ?p ys) = Some (put m ?p zs)" "perm256 zs"
      by auto
    moreover have "crush_loop ix s m = crush_loop (ix + 1) s (put m ?p ys)"
      using True sd r1 r2 w 1(2) by (subst crush_loop.simps) (simp add: Let_def)
    ultimately show ?thesis by auto
  qed
qed

lemma crush_ok: "wf s m \<Longrightarrow> ok (crush s m)"
proof -
  assume w: "wf s m"
  then obtain xs where "crush_loop 0 s m = Some (put m (st_s s) xs)" "perm256 xs"
    using crush_loop_ok[of s m 0] by (auto simp: wf_def)
  then show ?thesis using w by (simp add: crush_def wf_def)
qed

lemma whip_loop_ok: "wf s m \<Longrightarrow> ok (whip_loop r ix s m)"
proof (induction r ix s m rule: whip_loop.induct)
  case (1 r ix s m)
  show ?case
  proof (cases "ix < r")
    case False
    then show ?thesis using 1 by (subst whip_loop.simps) simp
  next
    case True
    from update_ok[OF "1.prems"] obtain s' m' where u: "update s m = Some (s', m')" and w: "wf s' m'"
      by (rule okE)
    have "ok (whip_loop r (ix + 1) s' m')"
      using True u w by (intro "1.IH") simp_all
    then show ?thesis using True u by (subst whip_loop.simps) simp
  qed
qed

lemma go_rem_reg: "reg_ok x \<Longrightarrow> reg_ok c \<Longrightarrow> \<exists>r. go_rem (x + c) 256 = Some r \<and> reg_ok r"
  by (simp add: go_rem_256 reg_ok_def)

lemma whip_ok: "wf s m \<Longrightarrow> ok (whip s m)"
proof -
  assume "wf s m"
  then obtain s1 m1 where l: "whip_loop (st_n s * 2) 0 s m = Some (s1, m1)" and w: "wf s1 m1"
    using whip_loop_ok by (blast elim: okE)
  obtain w' where "go_rem (st_w s1 + 2) 256 = Some w'" "reg_ok w'"
    using go_rem_reg[of "st_w s1" 2] w by (auto simp: wf_def reg_ok_def)
  then show ?thesis
    using l w by (simp add: whip_def wf_regs) (simp add: wf_def)
qed

lemma shuffle_ok: "wf s m \<Longrightarrow> ok (shuffle s m)"
  unfolding shuffle_def
  by (intro ok_bind whip_ok crush_ok) (simp_all add: wf_regs reg_ok_def)

lemma absorbStop_ok: "wf s m \<Longrightarrow> ok (absorbStop s m)"
proof -
  assume w: "wf s m"
  have "ok (if st_a s = st_n s sdiv 2 then shuffle s m else Some (s, m))"
    using w by (simp add: shuffle_ok)
  then obtain s1 m1 where
    e: "(if st_a s = st_n s sdiv 2 then shuffle s m else Some (s, m)) = Some (s1, m1)"
    and w1: "wf s1 m1" by (rule okE)
  obtain a' where "go_rem (st_a s1 + 1) 256 = Some a'" "reg_ok a'"
    using go_rem_reg[of "st_a s1" 1] w1 by (auto simp: wf_def reg_ok_def)
  then show ?thesis
    using e w1 unfolding absorbStop_def by (simp add: wf_regs) (simp add: wf_def)
qed

lemma absorbNibble_ok:
  assumes w: "wf s m" and x: "- 128 \<le> x"
  shows "ok (absorbNibble x s m)"
proof -
  have "ok (if st_a s = st_n s sdiv 2 then shuffle s m else Some (s, m))"
    using w by (simp add: shuffle_ok)
  then obtain s1 m1 where
    e: "(if st_a s = st_n s sdiv 2 then shuffle s m else Some (s, m)) = Some (s1, m1)"
    and w1: "wf s1 m1" by (rule okE)
  let ?p = "st_s s1"
  let ?xs = "cells m1 ?p"
  from w1 have n: "st_n s1 = 256" and p: "perm256 ?xs" and ra: "reg_ok (st_a s1)"
    by (simp_all add: wf_def)
  have len: "length ?xs = 256" using p by (rule perm256_length)
  define y where "y = (128 + x) mod 256"
  have ry: "reg_ok y" by (simp add: y_def reg_ok_mod)
  have g1: "go_rem (st_n s1 sdiv 2 + x) (st_n s1) = Some y"
    using x by (simp add: n signed_divide_int_def go_rem_256 y_def)
  obtain a' where g2: "go_rem (st_a s1 + 1) (st_n s1) = Some a'" and ra': "reg_ok a'"
    using go_rem_reg[of "st_a s1" 1] ra by (auto simp: n reg_ok_def)
  have r1: "rd m1 ?p (st_a s1) = Some (?xs ! nat (st_a s1))"
    and r2: "rd m1 ?p y = Some (?xs ! nat y)"
    using p ra ry by (simp_all add: rd_perm)
  have w1': "wr m1 ?p (st_a s1) (?xs ! nat y) = Some (put m1 ?p (?xs[nat (st_a s1) := ?xs ! nat y]))"
    using p ra by (simp add: wr_perm)
  have w2: "wr (put m1 ?p (?xs[nat (st_a s1) := ?xs ! nat y])) ?p y (?xs ! nat (st_a s1))
      = Some (put m1 ?p (?xs[nat (st_a s1) := ?xs ! nat y, nat y := ?xs ! nat (st_a s1)]))"
    using ry len by (simp add: wr_put reg_ok_def)
  have eq: "absorbNibble x s m = Some (s1\<lparr>st_a := a'\<rparr>,
      put m1 ?p (?xs[nat (st_a s1) := ?xs ! nat y, nat y := ?xs ! nat (st_a s1)]))"
    unfolding absorbNibble_def by (simp add: e g1 g2 r1 r2 w1' w2)
  have "perm256 (?xs[nat (st_a s1) := ?xs ! nat y, nat y := ?xs ! nat (st_a s1)])"
    using p ra ry by (intro perm256_swap) (simp_all add: reg_ok_def)
  then show ?thesis
    using w1 ra' by (simp add: eq wf_def)
qed

lemma absorbValue_ok:
  assumes w: "wf s m" and b: "0 \<le> b"
  shows "ok (absorbValue b s m)"
proof -
  have n: "st_n s = 256" using w by (simp add: wf_def)
  have d: "st_n s sdiv 16 = 16" by (simp add: n signed_divide_int_def)
  have lo: "go_rem b 16 = Some (b mod 16)"
    using b by (simp add: go_rem_def signed_modulo_int_def sgn_if)
  have hi: "go_quo b 16 = Some (b div 16)"
    using b by (simp add: go_quo_def signed_divide_int_def sgn_if)
  have "ok (absorbNibble (b mod 16) s m)"
    using w by (intro absorbNibble_ok) simp_all
  then obtain s1 m1 where e: "absorbNibble (b mod 16) s m = Some (s1, m1)" and w1: "wf s1 m1"
    by (rule okE)
  have "ok (absorbNibble (b div 16) s1 m1)"
    using w1 b by (intro absorbNibble_ok) (simp_all add: pos_imp_zdiv_nonneg_iff)
  then show ?thesis
    unfolding absorbValue_def by (simp add: d lo hi e)
qed

lemma absorb_ok: "wf s m \<Longrightarrow> list_all (\<lambda>v. 0 \<le> v) msg \<Longrightarrow> ok (absorb msg s m)"
proof (induction msg arbitrary: s m)
  case Nil
  then show ?case by simp
next
  case (Cons v msg)
  then have "ok (absorbValue v s m)" by (simp add: absorbValue_ok)
  then obtain s1 m1 where "absorbValue v s m = Some (s1, m1)" "wf s1 m1" by (rule okE)
  then show ?case using Cons by simp
qed

lemma list_all_uint: "list_all (\<lambda>v. 0 \<le> v) (map uint (p :: byte list))"
  by (simp add: list_all_iff)

lemma keySetup_ok: "wf s m \<Longrightarrow> list_all (\<lambda>v. 0 \<le> v) key \<Longrightarrow> ok (keySetup key s m)"
  unfolding keySetup_def
  by (rule ok_bind) (simp_all add: absorb_ok shuffle_ok)

lemma drip_ok:
  assumes "wf s m"
  shows "okv reg_ok (drip s m)"
proof -
  have "ok (if st_a s > 0 then shuffle s m else Some (s, m))"
    using assms by (simp add: shuffle_ok)
  then obtain s1 m1 where
    e: "(if st_a s > 0 then shuffle s m else Some (s, m)) = Some (s1, m1)"
    and w1: "wf s1 m1" by (rule okE)
  from update_ok[OF w1] obtain s2 m2 where u: "update s1 m1 = Some (s2, m2)" and w2: "wf s2 m2"
    by (rule okE)
  from output_z_ok[OF w2] obtain v where o: "output_z s2 m2 = Some (v, s2\<lparr>st_z := v\<rparr>)"
    and rv: "reg_ok v" by blast
  show ?thesis
    unfolding drip_def using w2 rv by (simp add: e u o wf_regs)
qed

lemma squeeze_loop_ok:
  "wf s m \<Longrightarrow> okv (\<lambda>vs. length vs = length out \<and> list_all reg_ok vs) (squeeze_loop out s m)"
proof (induction out arbitrary: s m)
  case Nil
  then show ?case by simp
next
  case (Cons x out)
  from drip_ok[OF Cons.prems] obtain v s1 m1 where
    d: "drip s m = Some (v, s1, m1)" and rv: "reg_ok v" and w1: "wf s1 m1" by (rule okvE)
  from Cons.IH[OF w1] obtain vs s2 m2 where
    q: "squeeze_loop out s1 m1 = Some (vs, s2, m2)" and l: "length vs = length out \<and> list_all reg_ok vs"
    and w2: "wf s2 m2" by (rule okvE)
  show ?case using rv l w2 by (simp add: d q)
qed

lemma squeeze_ok:
  "wf s m \<Longrightarrow> okv (\<lambda>vs. length vs = length out \<and> list_all reg_ok vs) (squeeze out s m)"
  unfolding squeeze_def
  by (rule ok_bind_v) (simp_all add: shuffle_ok squeeze_loop_ok)

lemma xor_loop_ok:
  "wf s m \<Longrightarrow> ix + k \<le> snd dst \<Longrightarrow> fst dst + snd dst \<le> length buf \<Longrightarrow>
   fst src + ix + k \<le> length buf \<Longrightarrow>
   okv (\<lambda>b. length b = length buf) (xor_loop k ix buf dst src s m)"
proof (induction k arbitrary: ix buf s m)
  case 0
  then show ?case by simp
next
  case (Suc k)
  from drip_ok[OF Suc.prems(1)] obtain x s1 m1 where
    d: "drip s m = Some (x, s1, m1)" and w1: "wf s1 m1" by (rule okvE)
  let ?buf = "buf[fst dst + ix := buf ! (fst src + ix) XOR word_of_int x]"
  have "okv (\<lambda>b. length b = length ?buf) (xor_loop k (Suc ix) ?buf dst src s1 m1)"
    using Suc.prems(2,3,4) by (intro Suc.IH[OF w1]) simp_all
  then show ?case using Suc.prems(2,3,4) by (simp add: d)
qed

lemma trv_simp [simp]:
  "trv p2 m2 (v, s', m') = (v, s'\<lparr>st_s := p2\<rparr>, put m2 p2 (cells m' (st_s s')))"
  by (simp add: trv_def)

lemma rd_at: "rd (put m2 p2 (cells m p)) p2 ix = rd m p ix"
  by (simp add: rd_def)

lemma wr_at: "wr (put m2 p2 (cells m p)) p2 ix v
    = map_option (\<lambda>m'. put m2 p2 (cells m' p)) (wr m p ix v)"
  by (simp add: wr_put)

lemma wr2_at: "(wr (put m2 p2 (cells m p)) p2 ix v \<bind> (\<lambda>m1. wr m1 p2 jx u))
    = map_option (\<lambda>m'. put m2 p2 (cells m' p)) (wr m p ix v \<bind> (\<lambda>m1. wr m1 p jx u))"
  by (simp add: wr_put)

lemma update_at:
  "update (s\<lparr>st_s := p2\<rparr>) (put m2 p2 (cells m (st_s s))) = map_option (tr p2 m2) (update s m)"
  unfolding update_def Let_def
  by (auto simp: rd_at wr_put split: Option.bind_split)

lemma output_z_at:
  "output_z (s\<lparr>st_s := p2\<rparr>) (put m2 p2 (cells m (st_s s)))
     = map_option (\<lambda>(v, s'). (v, s'\<lparr>st_s := p2\<rparr>)) (output_z s m)"
  unfolding output_z_def Let_def
  by (auto simp: rd_at split: Option.bind_split)

lemma crush_loop_at:
  "crush_loop ix (s\<lparr>st_s := p2\<rparr>) (put m2 p2 (cells m (st_s s)))
     = map_option (\<lambda>m'. put m2 p2 (cells m' (st_s s))) (crush_loop ix s m)"
proof (induction ix s m rule: crush_loop.induct)
  case (1 ix s m)
  let ?p = "st_s s"
  let ?s2 = "s\<lparr>st_s := p2\<rparr>"
  let ?m2 = "put m2 p2 (cells m ?p)"
  let ?y = "st_n s - 1 - ix"
  let ?T = "\<lambda>m'. put m2 p2 (cells m' ?p)"
  show ?case
  proof (cases "ix < st_n s sdiv 2")
    case False
    then show ?thesis by (simp add: crush_loop.simps)
  next
    case True
    show ?thesis
    proof (cases "rd m ?p ix")
      case None
      then show ?thesis
        using True by (simp add: crush_loop.simps[of ix] rd_at)
    next
      case x1: (Some x1)
      show ?thesis
      proof (cases "rd m ?p ?y")
        case None
        then show ?thesis
          using True x1 by (simp add: crush_loop.simps[of ix] rd_at)
      next
        case x2: (Some x2)
        let ?W = "if x1 > x2
               then do { m1 \<leftarrow> wr m ?p ix x2; wr m1 ?p ?y x1 }
               else do { m1 \<leftarrow> wr m ?p ix x1; wr m1 ?p ?y x2 }"
        let ?W2 = "if x1 > x2
               then do { m1 \<leftarrow> wr ?m2 p2 ix x2; wr m1 p2 ?y x1 }
               else do { m1 \<leftarrow> wr ?m2 p2 ix x1; wr m1 p2 ?y x2 }"
        have W2: "?W2 = map_option ?T ?W"
          by (simp only: wr2_at if_distrib[of "map_option ?T"])
        have L: "crush_loop ix ?s2 ?m2 = ?W2 \<bind> crush_loop (ix + 1) ?s2"
          using True x1 x2 by (subst crush_loop.simps) (simp add: rd_at)
        have R: "crush_loop ix s m = ?W \<bind> crush_loop (ix + 1) s"
          using True x1 x2 by (subst crush_loop.simps) simp
        show ?thesis
        proof (cases ?W)
          case None
          then show ?thesis unfolding L R W2 by simp
        next
          case (Some mm)
          have "crush_loop (ix + 1) ?s2 (put m2 p2 (cells mm ?p))
              = map_option ?T (crush_loop (ix + 1) s mm)"
            using True x1 x2 Some by (intro "1.IH"[of ?y x1 x2 mm]) simp_all
          then show ?thesis unfolding L R W2 Some by simp
        qed
      qed
    qed
  qed
qed

lemma crush_at:
  "crush (s\<lparr>st_s := p2\<rparr>) (put m2 p2 (cells m (st_s s))) = map_option (tr p2 m2) (crush s m)"
  unfolding crush_def
  by (cases "crush_loop 0 s m") (simp_all add: crush_loop_at)

lemma whip_loop_at:
  "whip_loop r ix (s\<lparr>st_s := p2\<rparr>) (put m2 p2 (cells m (st_s s)))
     = map_option (tr p2 m2) (whip_loop r ix s m)"
proof (induction r ix s m rule: whip_loop.induct)
  case (1 r ix s m)
  show ?case
  proof (cases "ix < r")
    case False
    then show ?thesis by (simp add: whip_loop.simps)
  next
    case True
    show ?thesis
    proof (cases "update s m")
      case None
      then show ?thesis
        using True by (simp add: whip_loop.simps[of r ix] update_at)
    next
      case (Some a)
      obtain s' m' where a: "a = (s', m')" by (cases a)
      have "whip_loop r (ix + 1) (s'\<lparr>st_s := p2\<rparr>) (put m2 p2 (cells m' (st_s s')))
          = map_option (tr p2 m2) (whip_loop r (ix + 1) s' m')"
        using True Some a by (intro "1.IH") simp_all
      then show ?thesis
        using True Some a by (simp add: whip_loop.simps[of r ix] update_at)
    qed
  qed
qed

lemma whip_at:
  "whip (s\<lparr>st_s := p2\<rparr>) (put m2 p2 (cells m (st_s s))) = map_option (tr p2 m2) (whip s m)"
  unfolding whip_def Let_def
  by (auto simp: whip_loop_at split: Option.bind_split)

lemma shuffle_at:
  "shuffle (s\<lparr>st_s := p2\<rparr>) (put m2 p2 (cells m (st_s s))) = map_option (tr p2 m2) (shuffle s m)"
  unfolding shuffle_def
  by (auto simp: whip_at crush_at split: Option.bind_split)

lemma absorbStop_at:
  "absorbStop (s\<lparr>st_s := p2\<rparr>) (put m2 p2 (cells m (st_s s)))
     = map_option (tr p2 m2) (absorbStop s m)"
  unfolding absorbStop_def
  by (auto simp: shuffle_at split: Option.bind_split)

lemma absorbNibble_at:
  "absorbNibble x (s\<lparr>st_s := p2\<rparr>) (put m2 p2 (cells m (st_s s)))
     = map_option (tr p2 m2) (absorbNibble x s m)"
proof -
  let ?F = "\<lambda>s m. if st_a s = st_n s sdiv 2 then shuffle s m else Some (s, m)"
  have F: "?F (s\<lparr>st_s := p2\<rparr>) (put m2 p2 (cells m (st_s s))) = map_option (tr p2 m2) (?F s m)"
    by (simp add: shuffle_at)
  show ?thesis
  proof (cases "?F s m")
    case None
    then show ?thesis unfolding absorbNibble_def F by simp
  next
    case (Some a)
    obtain s1 m1 where a: "a = (s1, m1)" by (cases a)
    show ?thesis
      unfolding absorbNibble_def F Some a
      by (cases "go_rem (st_n s1 sdiv 2 + x) (st_n s1)"; cases "go_rem (st_a s1 + 1) (st_n s1)")
         (simp_all add: rd_def wr_put)
  qed
qed

lemma absorbValue_at:
  "absorbValue b (s\<lparr>st_s := p2\<rparr>) (put m2 p2 (cells m (st_s s)))
     = map_option (tr p2 m2) (absorbValue b s m)"
  unfolding absorbValue_def Let_def
  by (auto simp: absorbNibble_at split: Option.bind_split)

lemma absorb_at:
  "absorb msg (s\<lparr>st_s := p2\<rparr>) (put m2 p2 (cells m (st_s s)))
     = map_option (tr p2 m2) (absorb msg s m)"
proof (induction msg arbitrary: s m)
  case Nil
  then show ?case by simp
next
  case (Cons v msg)
  then show ?case
    by (cases "absorbValue v s m") (auto simp: absorbValue_at)
qed

lemma keySetup_at:
  "keySetup key (s\<lparr>st_s := p2\<rparr>) (put m2 p2 (cells m (st_s s)))
     = map_option (tr p2 m2) (keySetup key s m)"
  unfolding keySetup_def
  by (auto simp: absorb_at shuffle_at split: Option.bind_split)

lemma output_z_st_s: "output_z s m = Some (v, s') \<Longrightarrow> st_s s' = st_s s"
  unfolding output_z_def Let_def
  by (auto split: Option.bind_splits)

lemma drip_at:
  "drip (s\<lparr>st_s := p2\<rparr>) (put m2 p2 (cells m (st_s s)))
     = map_option (trv p2 m2) (drip s m)"
proof -
  let ?F = "\<lambda>s m. if st_a s > 0 then shuffle s m else Some (s, m)"
  have F: "?F (s\<lparr>st_s := p2\<rparr>) (put m2 p2 (cells m (st_s s))) = map_option (tr p2 m2) (?F s m)"
    by (simp add: shuffle_at)
  show ?thesis
  proof (cases "?F s m")
    case None
    then show ?thesis unfolding drip_def F by simp
  next
    case (Some a)
    then show ?thesis
      unfolding drip_def F
      by (cases a) (auto simp: update_at output_z_at dest: output_z_st_s split: Option.bind_split)
  qed
qed

lemma squeeze_loop_at:
  "squeeze_loop out (s\<lparr>st_s := p2\<rparr>) (put m2 p2 (cells m (st_s s)))
     = map_option (trv p2 m2) (squeeze_loop out s m)"
proof (induction out arbitrary: s m)
  case Nil
  then show ?case by simp
next
  case (Cons x out)
  then show ?case
    by (cases "drip s m") (auto simp: drip_at split: Option.bind_split)
qed

lemma squeeze_at:
  "squeeze out (s\<lparr>st_s := p2\<rparr>) (put m2 p2 (cells m (st_s s)))
     = map_option (trv p2 m2) (squeeze out s m)"
  unfolding squeeze_def
  by (auto simp: shuffle_at squeeze_loop_at split: Option.bind_split)

lemma xor_loop_at:
  "xor_loop k ix buf dst src (s\<lparr>st_s := p2\<rparr>) (put m2 p2 (cells m (st_s s)))
     = map_option (trv p2 m2) (xor_loop k ix buf dst src s m)"
proof (induction k arbitrary: ix buf s m)
  case 0
  then show ?case by simp
next
  case (Suc k)
  then show ?case
    by (cases "drip s m") (auto simp: drip_at split: Option.bind_split)
qed

text \<open>What a transport equation says at the state's own address.\<close>

lemma at_frame:
  assumes "f (s\<lparr>st_s := st_s s\<rparr>) (put m (st_s s) (cells m (st_s s)))
      = map_option (tr (st_s s) m) (f s m)"
    and "f s m = Some (s', m')"
  shows "st_s s' = st_s s" and "brk m' = brk m" and "p \<noteq> st_s s \<Longrightarrow> cells m' p = cells m p"
    and "maxlen m' = maxlen m"
proof -
  define xs where "xs = cells m' (st_s s')"
  from assms have "Some (s', m') = Some (tr (st_s s) m (s', m'))" by simp
  then have e: "s' = s'\<lparr>st_s := st_s s\<rparr>" "m' = put m (st_s s) xs"
    by (simp_all add: xs_def)
  from e(1) have "st_s s' = st_s (s'\<lparr>st_s := st_s s\<rparr>)" by simp
  then show "st_s s' = st_s s" by simp
  show "brk m' = brk m" by (simp add: e(2))
  show "cells m' p = cells m p" if "p \<noteq> st_s s" using that by (simp add: e(2) cells_put)
  show "maxlen m' = maxlen m" by (simp add: e(2) put_def)
qed

lemma atv_frame:
  assumes "f (s\<lparr>st_s := st_s s\<rparr>) (put m (st_s s) (cells m (st_s s)))
      = map_option (trv (st_s s) m) (f s m)"
    and "f s m = Some (v, s', m')"
  shows "st_s s' = st_s s" and "brk m' = brk m" and "p \<noteq> st_s s \<Longrightarrow> cells m' p = cells m p"
    and "maxlen m' = maxlen m"
proof -
  define xs where "xs = cells m' (st_s s')"
  from assms have "Some (v, s', m') = Some (trv (st_s s) m (v, s', m'))" by simp
  then have e: "s' = s'\<lparr>st_s := st_s s\<rparr>" "m' = put m (st_s s) xs"
    by (simp_all add: xs_def)
  from e(1) have "st_s s' = st_s (s'\<lparr>st_s := st_s s\<rparr>)" by simp
  then show "st_s s' = st_s s" by simp
  show "brk m' = brk m" by (simp add: e(2))
  show "cells m' p = cells m p" if "p \<noteq> st_s s" using that by (simp add: e(2) cells_put)
  show "maxlen m' = maxlen m" by (simp add: e(2) put_def)
qed

lemmas absorb_frame = at_frame[where f = "absorb msg" for msg, OF absorb_at]

lemmas absorbStop_frame = at_frame[where f = absorbStop, OF absorbStop_at]

lemmas keySetup_frame = at_frame[where f = "keySetup key" for key, OF keySetup_at]

lemmas shuffle_frame = at_frame[where f = shuffle, OF shuffle_at]

lemmas squeeze_frame = atv_frame[where f = "squeeze out" for out, OF squeeze_at]

lemmas xor_loop_frame =
  atv_frame[where f = "xor_loop k ix buf dst src" for k ix buf dst src, OF xor_loop_at]

lemmas drip_frame = atv_frame[where f = drip, OF drip_at]

lemma initialize_init: "initialize n m = Some (init_state (brk m), init_mem m)"
  by (simp add: initialize_eq init_state_def init_mem_def)

lemma wf_init: "wf (init_state (brk m)) (init_mem m)"
  by (simp add: wf_def init_state_def init_mem_def perm256_upto reg_ok_def)

lemma Write_ok:
  assumes "wf (d_s d) m"
  shows "\<exists>d1 m1. Write d p m = Some (length p, d1, m1) \<and> wf (d_s d1) m1 \<and> d_size d1 = d_size d"
proof -
  from absorb_ok[OF assms list_all_uint[of p]]
  obtain s1 m1 where "absorb (map uint p) (d_s d) m = Some (s1, m1)" "wf s1 m1" by (rule okE)
  then show ?thesis by (simp add: Write_def)
qed

lemma wf_same_regs: "wf s m \<Longrightarrow> wf s' m' \<Longrightarrow> st_s s' = st_s s \<Longrightarrow> wf s m'"
  by (simp add: wf_def)

lemma Sum_ok:
  assumes w: "wf (d_s d) m" and sz: "0 \<le> d_size d" and mx: "d_size d \<le> maxlen m"
  shows "\<exists>h m1. Sum d b m = Some (b @ h, m1) \<and> length h = nat (d_size d) \<and> wf (d_s d) m1"
proof -
  from absorbStop_ok[OF w] obtain s1 m1 where
    a1: "absorbStop (d_s d) m = Some (s1, m1)" and w1: "wf s1 m1" by (rule okE)
  have "ok (absorb [d_size d] s1 m1)" using w1 sz by (intro absorb_ok) simp_all
  then obtain s2 m2 where a2: "absorb [d_size d] s1 m1 = Some (s2, m2)" and w2: "wf s2 m2"
    by (rule okE)
  have m2: "maxlen m2 = maxlen m"
    using absorbStop_frame(4)[OF a1] absorb_frame(4)[OF a2] by simp
  from squeeze_ok[OF w2, of "replicate (nat (d_size d)) 0"] obtain vs s3 m3 where
    q: "squeeze (replicate (nat (d_size d)) 0) s2 m2 = Some (vs, s3, m3)"
    and l: "length vs = nat (d_size d)" and w3: "wf s3 m3"
    by (rule okvE) simp
  have "st_s s3 = st_s (d_s d)"
    using absorbStop_frame(1)[OF a1] absorb_frame(1)[OF a2] squeeze_frame(1)[OF q] by simp
  then have "wf (d_s d) m3" using w w3 by (rule wf_same_regs[rotated 2])
  then show ?thesis
    using sz mx l by (simp add: Sum_def a1 a2 m2 q del: absorb.simps)
qed

lemma Sum_neg: "d_size d < 0 \<Longrightarrow> Sum d b m = None"
  by (simp add: Sum_def split: Option.bind_split)

lemma Sum_big: "maxlen m < d_size d \<Longrightarrow> Sum d b m = None"
proof (cases "absorbStop (d_s d) m")
  case None
  then show ?thesis by (simp add: Sum_def)
next
  case (Some a)
  obtain s1 m1 where a: "a = (s1, m1)" by (cases a)
  assume big: "maxlen m < d_size d"
  show ?thesis
  proof (cases "absorb [d_size d] s1 m1")
    case None
    then show ?thesis using Some a by (simp add: Sum_def del: absorb.simps)
  next
    case a2: (Some a')
    obtain s2 m2 where a': "a' = (s2, m2)" by (cases a')
    have "maxlen m2 = maxlen m"
      using absorbStop_frame(4)[of "d_s d" m s1 m1] absorb_frame(4)[of "[d_size d]" s1 m1 s2 m2]
        Some a a2 a' by simp
    then show ?thesis
      using Some a a2 a' big by (simp add: Sum_def del: absorb.simps)
  qed
qed

lemma hash_step_inv:
  assumes "wf (d_s d) m"
  shows "case hash_step x d m of
      None \<Rightarrow> is_OpSum x
    | Some (d1, m1) \<Rightarrow> wf (d_s d1) m1 \<and> d_size d1 = d_size d"
proof (cases x)
  case (OpWrite p)
  then show ?thesis using Write_ok[OF assms, of p] by auto
next
  case (OpSum b)
  show ?thesis
  proof (cases "0 \<le> d_size d \<and> d_size d \<le> maxlen m")
    case True
    then show ?thesis using Sum_ok[OF assms, of b] OpSum by auto
  next
    case False
    then have "Sum d b m = None" using Sum_neg[of d b m] Sum_big[of m d b] by auto
    then show ?thesis using OpSum by simp
  qed
next
  case OpReset
  then show ?thesis by (simp add: Reset_def initialize_init wf_init)
qed

lemma hash_run_inv:
  "wf (d_s d) m \<Longrightarrow> (case hash_run ops d m of
      None \<Rightarrow> list_ex is_OpSum ops
    | Some (d1, m1) \<Rightarrow> wf (d_s d1) m1 \<and> d_size d1 = d_size d)"
proof (induction ops arbitrary: d m)
  case Nil
  then show ?case by simp
next
  case (Cons x ops)
  show ?case
  proof (cases "hash_step x d m")
    case None
    then show ?thesis using hash_step_inv[OF Cons.prems, of x] by simp
  next
    case (Some a)
    obtain d1 m1 where a: "a = (d1, m1)" by (cases a)
    have w1: "wf (d_s d1) m1" and s1: "d_size d1 = d_size d"
      using hash_step_inv[OF Cons.prems, of x] Some a by simp_all
    show ?thesis
      using Cons.IH[OF w1] Some a s1 by (auto split: option.splits)
  qed
qed

lemma xor_loop_inv:
  "wf s m \<Longrightarrow> (case xor_loop k ix buf dst src s m of
      None \<Rightarrow> snd dst < ix + k \<or> length buf < fst dst + snd dst
        \<or> length buf < fst src + ix + k
    | Some (b1, s1, m1) \<Rightarrow> wf s1 m1)"
proof (induction k arbitrary: ix buf s m)
  case 0
  then show ?case by simp
next
  case (Suc k)
  from drip_ok[OF Suc.prems(1)] obtain x s1 m1 where
    d: "drip s m = Some (x, s1, m1)" and w1: "wf s1 m1" by (rule okvE)
  let ?buf = "buf[fst dst + ix := buf ! (fst src + ix) XOR word_of_int x]"
  show ?case
  proof (cases "fst src + ix < length buf \<and> ix < snd dst \<and> fst dst + ix < length buf")
    case False
    then show ?thesis by (auto simp: d)
  next
    case True
    then show ?thesis
      using Suc.IH[OF w1, where ix = "Suc ix" and buf = ?buf]
      by (auto simp: d split: option.splits)
  qed
qed

lemma stream_run_inv:
  "wf (stream_s c) m \<Longrightarrow> (case stream_run ops c m of
      None \<Rightarrow> list_ex bad_call ops
    | Some (c1, m1) \<Rightarrow> wf (stream_s c1) m1)"
proof (induction ops arbitrary: c m)
  case Nil
  then show ?case by simp
next
  case (Cons x ops)
  obtain buf dst src where x: "x = (buf, dst, src)" by (cases x)
  show ?case
  proof (cases "xor_loop (snd src) 0 buf dst src (stream_s c) m")
    case None
    then show ?thesis
      using xor_loop_inv[OF Cons.prems, where k = "snd src" and ix = 0 and buf = buf
          and dst = dst and src = src] x
      by (auto simp: XORKeyStream_def)
  next
    case (Some a)
    obtain b1 s1 m1 where a: "a = (b1, s1, m1)" by (cases a)
    have "wf s1 m1"
      using xor_loop_inv[OF Cons.prems, where k = "snd src" and ix = 0 and buf = buf
          and dst = dst and src = src] Some a by simp
    then show ?thesis
      using Cons.IH[of "\<lparr>stream_s = s1\<rparr>" m1] Some a x
      by (auto simp: XORKeyStream_def split: option.splits)
  qed
qed

lemma NewHash_eq: "NewHash sz m = Some (\<lparr>d_size = sz, d_s = init_state (brk m)\<rparr>, init_mem m)"
  by (simp add: NewHash_def initialize_init)

lemma NewStream_ok:
  "\<exists>s1 m1. NewStream key m = Some (\<lparr>stream_s = s1\<rparr>, m1) \<and> wf s1 m1 \<and>
     keySetup (map uint key) (init_state (brk m)) (init_mem m) = Some (s1, m1)"
proof -
  have "ok (keySetup (map uint key) (init_state (brk m)) (init_mem m))"
    by (intro keySetup_ok wf_init list_all_uint)
  then obtain s1 m1 where
    "keySetup (map uint key) (init_state (brk m)) (init_mem m) = Some (s1, m1)" "wf s1 m1"
    by (rule okE)
  then show ?thesis by (simp add: NewStream_def initialize_init)
qed

lemma absorb_append:
  "absorb (xs @ ys) s m = absorb xs s m \<bind> (\<lambda>(s1, m1). absorb ys s1 m1)"
proof (induction xs arbitrary: s m)
  case Nil
  then show ?case by simp
next
  case (Cons x xs)
  then show ?case by (cases "absorbValue x s m") auto
qed

lemma write_all_absorb:
  "write_all ps d m = absorb (map uint (concat ps)) (d_s d) m
     \<bind> (\<lambda>(s1, m1). Some (d\<lparr>d_s := s1\<rparr>, m1))"
proof (induction ps arbitrary: d m)
  case Nil
  then show ?case by simp
next
  case (Cons p ps)
  show ?case
  proof (cases "absorb (map uint p) (d_s d) m")
    case None
    then show ?thesis by (simp add: Write_def absorb_append)
  next
    case (Some a)
    obtain s1 m1 where a: "a = (s1, m1)" by (cases a)
    show ?thesis
      using Some a Cons.IH[of "d\<lparr>d_s := s1\<rparr>" m1]
      by (simp add: Write_def absorb_append)
  qed
qed

lemma Write_absorb:
  "Write d p m = absorb (map uint p) (d_s d) m
     \<bind> (\<lambda>(s1, m1). Some (length p, d\<lparr>d_s := s1\<rparr>, m1))"
  by (simp add: Write_def)

text \<open>
  C8. Chunk independence of the hash: writing the chunks of a message in order and then
  calling \<open>Sum\<close> returns the same digest (and leaves the same store) as writing the
  whole message in one call and then calling \<open>Sum\<close>; this holds for every splitting,
  empty chunks included, every accumulator state and every prefix \<open>b\<close>.
\<close>

theorem C8_chunk_independence:
  "(write_all ps d m \<bind> (\<lambda>(d1, m1). Sum d1 b m1))
     = (Write d (concat ps) m \<bind> (\<lambda>(n, d1, m1). Sum d1 b m1))"
  by (cases "absorb (map uint (concat ps)) (d_s d) m") (auto simp: write_all_absorb Write_absorb)

theorem C8_chunk_independence_witness:
  "(write_all [[1, 2], [3]] \<lparr>d_size = 2, d_s = init_state 0\<rparr> (init_mem mem0)
       \<bind> (\<lambda>(d1, m1). Sum d1 [] m1))
     = (Write \<lparr>d_size = 2, d_s = init_state 0\<rparr> (concat [[1, 2], [3]]) (init_mem mem0)
       \<bind> (\<lambda>(n, d1, m1). Sum d1 [] m1))"
  using C8_chunk_independence[of "[[1, 2], [3]]" "\<lparr>d_size = 2, d_s = init_state 0\<rparr>" "init_mem mem0" "[]"]
  by simp

text \<open>
  C10. \<open>initialize\<close> ignores its argument: for every \<open>n\<close> it returns the state with
  \<open>n = 256\<close>, a fresh backing array of length 256 holding \<open>0, 1, \<dots>, 255\<close>,
  \<open>i = j = k = z = a = 0\<close> and \<open>w = 1\<close>. Every state reached through the public
  operations of a hash or a stream has size 256 and an array of length 256.
\<close>

theorem C10_initialize_ignores_n:
  "initialize n m = Some (\<lparr>st_n = 256, st_s = brk m, st_a = 0, st_i = 0, st_j = 0, st_k = 0,
       st_w = 1, st_z = 0\<rparr>,
     m\<lparr>cells := (cells m)(brk m := [0..255]), brk := Suc (brk m)\<rparr>)
   \<and> length [0..255 :: int] = 256
   \<and> (case NewHash sz m \<bind> (\<lambda>(d, m1). hash_run ops d m1) of
        None \<Rightarrow> True
      | Some (d1, m1) \<Rightarrow> st_n (d_s d1) = 256 \<and> length (cells m1 (st_s (d_s d1))) = 256)
   \<and> (case NewStream key m \<bind> (\<lambda>(c, m1). stream_run xs c m1) of
        None \<Rightarrow> True
      | Some (c1, m1) \<Rightarrow> st_n (stream_s c1) = 256 \<and> length (cells m1 (st_s (stream_s c1))) = 256)"
proof -
  have h: "case hash_run ops \<lparr>d_size = sz, d_s = init_state (brk m)\<rparr> (init_mem m) of
        None \<Rightarrow> True
      | Some (d1, m1) \<Rightarrow> st_n (d_s d1) = 256 \<and> length (cells m1 (st_s (d_s d1))) = 256"
    using hash_run_inv[of "\<lparr>d_size = sz, d_s = init_state (brk m)\<rparr>" "init_mem m" ops] wf_init[of m]
    by (auto simp: wf_def perm256_length split: option.splits)
  obtain s1 m1 where n: "NewStream key m = Some (\<lparr>stream_s = s1\<rparr>, m1)" and w: "wf s1 m1"
    using NewStream_ok[of key m] by blast
  have s: "case stream_run xs \<lparr>stream_s = s1\<rparr> m1 of
        None \<Rightarrow> True
      | Some (c1, m1) \<Rightarrow> st_n (stream_s c1) = 256 \<and> length (cells m1 (st_s (stream_s c1))) = 256"
    using stream_run_inv[of "\<lparr>stream_s = s1\<rparr>" m1 xs] w
    by (auto simp: wf_def perm256_length split: option.splits)
  show ?thesis
    using h s by (simp add: initialize_eq NewHash_eq n)
qed

text \<open>
  C6. On a state that satisfies the invariant of the public operations (size 256, array a
  permutation of \<open>0..255\<close>, registers in \<open>[0, 256)\<close>), one call of \<open>update\<close> does not
  panic and performs exactly the steps of the specification, in their order, as
  \<open>update_spec\<close> writes them: \<open>i = (i + w) mod n\<close>, \<open>y = (j + s[i]) mod n\<close>,
  \<open>j = (k + s[y]) mod n\<close>, \<open>k = (i + k + s[j]) mod n\<close>, then the swap of \<open>s[i]\<close> and
  \<open>s[j]\<close>; the other array entries, the other arrays of the store and the registers
  \<open>w\<close>, \<open>z\<close>, \<open>a\<close>, \<open>n\<close> are unchanged.
\<close>

theorem C6_update_steps:
  assumes "wf s m"
  shows "update s m = Some (update_spec s m)"
  using assms by (rule update_wf_eq)

theorem C6_update_steps_witness:
  "update (init_state 0) (init_mem mem0) = Some (update_spec (init_state 0) (init_mem mem0))"
  using C6_update_steps[of "init_state 0" "init_mem mem0"] wf_init[of mem0]
  by (simp add: mem0_def)

text \<open>
  C5. At every point of every sequence of public operations, from a freshly constructed
  hash (any mix of \<open>Write\<close>, \<open>Sum\<close>, \<open>Reset\<close>) or a freshly constructed cipher (any
  sequence of \<open>XORKeyStream\<close> calls), sorting the array of the state yields
  \<open>[0, 1, \<dots>, n - 1]\<close>. A sequence that has no call of \<open>Sum\<close> does not panic, and
  neither does a sequence of \<open>XORKeyStream\<close> calls in which every destination is as long
  as its source (and both slices lie within the buffer).
\<close>

theorem C5_permutation_invariant:
  "(case NewHash sz m \<bind> (\<lambda>(d, m1). hash_run ops d m1) of
      None \<Rightarrow> list_ex is_OpSum ops
    | Some (d1, m1) \<Rightarrow> sort (cells m1 (st_s (d_s d1))) = [0..st_n (d_s d1) - 1])
   \<and> (case NewStream key m \<bind> (\<lambda>(c, m1). stream_run xs c m1) of
      None \<Rightarrow> list_ex bad_call xs
    | Some (c1, m1) \<Rightarrow> sort (cells m1 (st_s (stream_s c1))) = [0..st_n (stream_s c1) - 1])"
proof -
  have h: "case hash_run ops \<lparr>d_size = sz, d_s = init_state (brk m)\<rparr> (init_mem m) of
      None \<Rightarrow> list_ex is_OpSum ops
    | Some (d1, m1) \<Rightarrow> sort (cells m1 (st_s (d_s d1))) = [0..st_n (d_s d1) - 1]"
    using hash_run_inv[of "\<lparr>d_size = sz, d_s = init_state (brk m)\<rparr>" "init_mem m" ops] wf_init[of m]
    by (auto simp: wf_def perm256_def split: option.splits)
  obtain s1 m1 where n: "NewStream key m = Some (\<lparr>stream_s = s1\<rparr>, m1)" and w: "wf s1 m1"
    using NewStream_ok[of key m] by blast
  have s: "case stream_run xs \<lparr>stream_s = s1\<rparr> m1 of
      None \<Rightarrow> list_ex bad_call xs
    | Some (c1, m1) \<Rightarrow> sort (cells m1 (st_s (stream_s c1))) = [0..st_n (stream_s c1) - 1]"
    using stream_run_inv[of "\<lparr>stream_s = s1\<rparr>" m1 xs] w
    by (auto simp: wf_def perm256_def split: option.splits)
  show ?thesis
    using h s by (simp add: NewHash_eq n)
qed

text \<open>
  C9. For every key, \<open>NewStream\<close> returns, and the state it returns, at the end of
  \<open>keySetup\<close>, has \<open>a = 0\<close>. For the empty key the shuffle is skipped: \<open>keySetup\<close>
  returns the state and the store unchanged when \<open>a\<close> is 0, so the cipher starts from
  the initialised state.
\<close>

lemma shuffle_a: "shuffle s m = Some (s', m') \<Longrightarrow> st_a s' = 0"
  unfolding shuffle_def by (auto split: Option.bind_splits)

theorem C9_keySetup_clean:
  "(\<exists>c m1. NewStream key m = Some (c, m1) \<and> st_a (stream_s c) = 0)
   \<and> keySetup [] (s\<lparr>st_a := 0\<rparr>) m = Some (s\<lparr>st_a := 0\<rparr>, m)
   \<and> NewStream [] m = Some (\<lparr>stream_s = init_state (brk m)\<rparr>, init_mem m)"
proof -
  obtain s1 m1 where n: "NewStream key m = Some (\<lparr>stream_s = s1\<rparr>, m1)" and w: "wf s1 m1"
    and k: "keySetup (map uint key) (init_state (brk m)) (init_mem m) = Some (s1, m1)"
    using NewStream_ok[of key m] by blast
  have "st_a s1 \<le> 0"
    using k unfolding keySetup_def
    by (auto split: Option.bind_splits if_splits simp: shuffle_a)
  moreover have "0 \<le> st_a s1" using w by (simp add: wf_def reg_ok_def)
  ultimately have "st_a s1 = 0" by simp
  then show ?thesis
    using n by (simp add: keySetup_def NewStream_def initialize_init init_state_def)
qed

text \<open>
  C4 (as the code has it). \<open>NewHash\<close> makes no check of the size: for every size,
  negative ones included, it returns a handle that records the size as given, over a
  freshly initialised state. A negative size is rejected only later: every call of
  \<open>Sum\<close> on a handle of negative size panics, in whatever state and store.
\<close>

theorem C4_NewHash_accepts_any_size:
  "NewHash sz m = Some (\<lparr>d_size = sz, d_s = init_state (brk m)\<rparr>, init_mem m)
   \<and> (if sz < 0 then Sum \<lparr>d_size = sz, d_s = s\<rparr> b m' = None else True)"
  by (simp add: NewHash_eq Sum_neg)

theorem C4_NewHash_accepts_any_size_witness:
  "NewHash (- 1) mem0 = Some (\<lparr>d_size = - 1, d_s = init_state 0\<rparr>, init_mem mem0)
   \<and> Sum \<lparr>d_size = - 1, d_s = init_state 0\<rparr> [] (init_mem mem0) = None"
  using C4_NewHash_accepts_any_size[where sz = "- 1" and m = mem0 and s = "init_state 0"
      and b = "[]" and m' = "init_mem mem0"]
  by (simp add: mem0_def)

theorem C4_negative_size_counterexample:
  "map_option fst (NewHash (- 1) mem0) = Some \<lparr>d_size = - 1, d_s = init_state 0\<rparr>"
  by (simp add: NewHash_eq mem0_def)

lemma cells_init_mem: "cells (init_mem m) p = (if p = brk m then [0..255] else cells m p)"
  by (simp add: init_mem_def)

lemma brk_init_mem: "brk (init_mem m) = Suc (brk m)"
  by (simp add: init_mem_def)

lemma st_s_init_state: "st_s (init_state p) = p"
  by (simp add: init_state_def)

lemma init_state_move: "(init_state p)\<lparr>st_s := q\<rparr> = init_state q"
  by (simp add: init_state_def)

lemma put_cells_eq: "cells m p = xs \<Longrightarrow> put m p xs = m"
  by (auto simp: put_def)

lemma wf_cong: "cells m' (st_s s) = cells m (st_s s) \<Longrightarrow> wf s m' = wf s m"
  by (simp add: wf_def)

lemma wf_move: "wf s m \<Longrightarrow> cells m' p = cells m (st_s s) \<Longrightarrow> wf (s\<lparr>st_s := p\<rparr>) m'"
  by (simp add: wf_def)

text \<open>Two states that differ in the address of their array only, with equal contents.\<close>

lemma keySetup_init_any:
  assumes "keySetup key (init_state (brk m)) (init_mem m) = Some (s1, m1)"
  shows "keySetup key (init_state (brk m')) (init_mem m')
    = Some (s1\<lparr>st_s := brk m'\<rparr>, put (init_mem m') (brk m') (cells m1 (st_s s1)))"
proof -
  have "put (init_mem m') (brk m') (cells (init_mem m) (st_s (init_state (brk m)))) = init_mem m'"
    by (rule put_cells_eq) (simp add: cells_init_mem st_s_init_state)
  then show ?thesis
    using keySetup_at[where key = key and s = "init_state (brk m)" and ?p2.0 = "brk m'"
        and ?m2.0 = "init_mem m'" and m = "init_mem m"] assms
    by (simp add: init_state_move)
qed


text \<open>
  C7. For every key and every source of \<open>m\<close> bytes (with a destination long enough, the
  two slices within the same bytes \<open>buf\<close>, overlapping or not), two cipher instances
  constructed one after the other from the same key, each with its own array in the same
  store, neither panic, and return the same bytes from \<open>XORKeyStream\<close> on the same
  input: their keystreams are identical.
\<close>

theorem C7_keystream_deterministic:
  assumes "snd src \<le> snd dst" and "fst dst + snd dst \<le> length buf"
    and "fst src + snd src \<le> length buf"
  shows "\<exists>c1 m1 c2 m2 out c1' m3 c2' m4.
      NewStream key m = Some (c1, m1) \<and> NewStream key m1 = Some (c2, m2) \<and>
      st_s (stream_s c1) \<noteq> st_s (stream_s c2) \<and>
      XORKeyStream c1 buf dst src m2 = Some (out, c1', m3) \<and>
      XORKeyStream c2 buf dst src m3 = Some (out, c2', m4)"
proof -
  let ?K = "map uint key"
  obtain s1 m1 where n1: "NewStream key m = Some (\<lparr>stream_s = s1\<rparr>, m1)" and w1: "wf s1 m1"
    and k1: "keySetup ?K (init_state (brk m)) (init_mem m) = Some (s1, m1)"
    using NewStream_ok[of key m] by blast
  have p1: "st_s s1 = brk m" and b1: "brk m1 = Suc (brk m)"
    using keySetup_frame(1,2)[OF k1] by (simp_all add: st_s_init_state brk_init_mem)
  define s2 where "s2 = s1\<lparr>st_s := brk m1\<rparr>"
  define m2 where "m2 = put (init_mem m1) (brk m1) (cells m1 (st_s s1))"
  have k2: "keySetup ?K (init_state (brk m1)) (init_mem m1) = Some (s2, m2)"
    unfolding s2_def m2_def using k1 by (rule keySetup_init_any)
  have n2: "NewStream key m1 = Some (\<lparr>stream_s = s2\<rparr>, m2)"
    by (simp add: NewStream_def initialize_init k2)
  have c21: "cells m2 (brk m) = cells m1 (brk m)"
    by (simp add: m2_def cells_put cells_init_mem b1)
  have c22: "cells m2 (brk m1) = cells m1 (brk m)"
    by (simp add: m2_def p1)
  have w12: "wf s1 m2" using w1 c21 by (simp add: wf_def p1)
  have "okv (\<lambda>b. length b = length buf) (xor_loop (snd src) 0 buf dst src s1 m2)"
    using w12 assms by (intro xor_loop_ok) simp_all
  then obtain out s1' m3 where
    x1: "xor_loop (snd src) 0 buf dst src s1 m2 = Some (out, s1', m3)"
    by (rule okvE)
  have "cells m3 (brk m1) = cells m2 (brk m1)"
    using xor_loop_frame(3)[OF x1, of "brk m1"] by (simp add: b1 p1)
  then have c32: "cells m3 (brk m1) = cells m2 (st_s s1)"
    by (simp only: c22 c21 p1)
  have "xor_loop (snd src) 0 buf dst src s2 (put m3 (brk m1) (cells m2 (st_s s1)))
      = map_option (trv (brk m1) m3) (xor_loop (snd src) 0 buf dst src s1 m2)"
    unfolding s2_def by (rule xor_loop_at)
  then have x2: "xor_loop (snd src) 0 buf dst src s2 m3
      = Some (out, s1'\<lparr>st_s := brk m1\<rparr>, put m3 (brk m1) (cells m3 (st_s s1')))"
    by (simp add: put_cells_eq[OF c32] x1)
  have "st_s s1 \<noteq> st_s s2" by (simp add: s2_def p1 b1)
  then show ?thesis
    using n1 n2 x1 x2 by (simp add: XORKeyStream_def)
qed

theorem C7_keystream_deterministic_witness:
  "\<exists>c1 m1 c2 m2 out c1' m3 c2' m4.
      NewStream [1, 2] mem0 = Some (c1, m1) \<and> NewStream [1, 2] m1 = Some (c2, m2) \<and>
      st_s (stream_s c1) \<noteq> st_s (stream_s c2) \<and>
      XORKeyStream c1 [1, 2, 3, 4] (1, 3) (0, 3) m2 = Some (out, c1', m3) \<and>
      XORKeyStream c2 [1, 2, 3, 4] (1, 3) (0, 3) m3 = Some (out, c2', m4)"
  using C7_keystream_deterministic[of "(0, 3)" "(1, 3)" "[1, 2, 3, 4]" "[1, 2]" mem0]
  by simp










text \<open>
  The trie agrees with the list it stands for; reading and writing the store \<open>tmem t b\<close>
  are reading and writing the trie.
\<close>

lemma div2_neq: "even m = even n \<Longrightarrow> m \<noteq> n \<Longrightarrow> m div 2 \<noteq> (n::int) div 2"
  by (metis bit_eq_rec)

lemma look_upd:
  "0 \<le> n \<Longrightarrow> n < 2 ^ d \<Longrightarrow> 0 \<le> m \<Longrightarrow> m < 2 ^ d \<Longrightarrow>
   look (upd d t n v) m = (if m = n then v else look t m)"
proof (induction d arbitrary: t n m)
  case 0
  then show ?case by simp
next
  case (Suc d)
  have n2: "0 \<le> n div 2" "n div 2 < 2 ^ d" and m2: "0 \<le> m div 2" "m div 2 < 2 ^ d"
    using Suc.prems by auto
  note IH = Suc.IH[OF n2 m2]
  show ?case
  proof (cases t)
    case (L u)
    then show ?thesis using IH[of "L u"] div2_neq[of m n] by auto
  next
    case (N l r)
    then show ?thesis using IH[of l] IH[of r] div2_neq[of m n] by auto
  qed
qed

lemma updz_upd: "updz fs d t n v = plug fs (upd d t n v)"
  by (induction fs d t n v rule: updz.induct) auto

lemma length_tl8: "length (tl8 t) = 256"
  by (simp add: tl8_def)

lemma upd_tl8: "n < 256 \<Longrightarrow> (tl8 t)[n := v] = tl8 (upd 8 t (int n) v)"
  by (rule nth_equalityI) (auto simp: tl8_def look_upd nth_list_update simp del: upt_Suc)

lemma rd_tmem: "rd (tmem t b) 0 ix = (if 0 \<le> ix \<and> ix < 256 then Some (look t ix) else None)"
  by (auto simp: rd_def tmem_def tl8_def nat_less_iff)

lemma wr_tmem: "wr (tmem t b) 0 ix v =
   (if 0 \<le> ix \<and> ix < 256 then Some (tmem (updz [] d8 t ix v) b) else None)"
proof -
  have "(8::nat) = d8" by (simp add: d8_def)
  then show ?thesis
    using upd_tl8[of "nat ix" t v]
    by (auto simp: wr_def tmem_def nat_less_iff length_tl8 updz_upd)
qed

lemma look_num:
  "look (L v) n = v"
  "look (N l r) 0 = look l 0"
  "look (N l r) 1 = look r 0"
  "look (N l r) (numeral (Num.Bit0 k)) = look l (numeral k)"
  "look (N l r) (numeral (Num.Bit1 k)) = look r (numeral k)"
  by simp_all

lemma updz_num:
  "updz fs 0 t n v = plug fs (L v)"
  "updz fs (Suc d) (L u) 0 v = updz (FR (L u) # fs) d (L u) 0 v"
  "updz fs (Suc d) (L u) 1 v = updz (FL (L u) # fs) d (L u) 0 v"
  "updz fs (Suc d) (L u) (numeral (Num.Bit0 k)) v = updz (FR (L u) # fs) d (L u) (numeral k) v"
  "updz fs (Suc d) (L u) (numeral (Num.Bit1 k)) v = updz (FL (L u) # fs) d (L u) (numeral k) v"
  "updz fs (Suc d) (N l r) 0 v = updz (FR r # fs) d l 0 v"
  "updz fs (Suc d) (N l r) 1 v = updz (FL l # fs) d r 0 v"
  "updz fs (Suc d) (N l r) (numeral (Num.Bit0 k)) v = updz (FR r # fs) d l (numeral k) v"
  "updz fs (Suc d) (N l r) (numeral (Num.Bit1 k)) v = updz (FL l # fs) d r (numeral k) v"
  by simp_all

lemma N_cong: "N l r = N l r"
  by (rule refl)

lemma bind_weak_cong: "x = y \<Longrightarrow> Option.bind x f = Option.bind y f"
  by simp

lemma sdiv_256: "(256::int) sdiv 2 = 128" "(256::int) sdiv 16 = 16"
  by (simp_all add: signed_divide_int_def)

lemma make_ints_mem0: "make_ints 256 mem0 = Some (0, tmem (L 0) 1)"
  by (simp add: make_ints_def mem0_def tmem_def tl8_def map_replicate_const)

lemma maxlen_tmem: "maxlen (tmem t b) = 35184372088832"
  by (simp add: tmem_def)

lemma len_tmem: "length (cells (tmem t b) 0) = 256"
  by (simp add: tmem_def length_tl8)

lemmas ev_defs = NewHash_def Sum_def Write_def initialize_def update_def output_z_def crush_def
  whip_def shuffle_def absorbStop_def absorbNibble_def absorbValue_def drip_def squeeze_def
  range_fill.simps crush_loop.simps whip_loop.simps

lemma smod_nonneg: "0 \<le> x \<Longrightarrow> x smod 256 = x mod (256 :: int)"
  by (simp add: signed_modulo_int_def sgn_if)

lemma mod256_b: "256 \<le> x \<Longrightarrow> x < 512 \<Longrightarrow> x mod 256 = x - (256 :: int)"
proof -
  assume a: "256 \<le> x" "x < 512"
  have "(x + 256 * (- 1)) mod 256 = x mod 256" by (rule mod_mult_self2)
  then have "x mod 256 = (x - 256) mod 256" by simp
  also have "\<dots> = x - 256" using a by (intro mod_pos_pos_trivial) simp_all
  finally show ?thesis .
qed

lemma mod256_c: "512 \<le> x \<Longrightarrow> x < 768 \<Longrightarrow> x mod 256 = x - (512 :: int)"
proof -
  assume a: "512 \<le> x" "x < 768"
  have "(x + 256 * (- 2)) mod 256 = x mod 256" by (rule mod_mult_self2)
  then have "x mod 256 = (x - 512) mod 256" by simp
  also have "\<dots> = x - 512" using a by (intro mod_pos_pos_trivial) simp_all
  finally show ?thesis .
qed

lemma go_rem_256_sub:
  "go_rem x 256 = Some (if x < 256 then (if 0 \<le> x then x else x smod 256)
     else if x < 512 then x - 256 else if x < 768 then x - 512 else x smod 256)"
proof -
  have g: "go_rem x 256 = Some (x smod 256)" by (simp add: go_rem_def)
  consider "x < 0" | "0 \<le> x" "x < 256" | "256 \<le> x" "x < 512" | "512 \<le> x" "x < 768" | "768 \<le> x"
    by linarith
  then show ?thesis
  proof cases
    case 1
    then show ?thesis by (simp add: g)
  next
    case 2
    then show ?thesis by (simp add: g smod_nonneg)
  next
    case 3
    then show ?thesis by (simp add: g smod_nonneg mod256_b del: minus_mod_self2)
  next
    case 4
    then show ?thesis by (simp add: g smod_nonneg mod256_c)
  next
    case 5
    then show ?thesis by (simp add: g)
  qed
qed

lemmas ev_only = ev_defs make_ints_mem0 len_tmem maxlen_tmem go_rem_256_sub sdiv_256 rd_tmem wr_tmem
  look_num updz_num plug.simps d8_def Let_def
  Option.bind.simps option.case prod.case if_True if_False simp_thms
  state.simps mem.simps digest.simps
  arith_simps rel_simps numeral_plus_numeral numeral_times_numeral diff_numeral_simps
  add_0 add_0_right diff_numeral_special numeral_plus_one one_plus_numeral one_add_one
  absorb.simps squeeze_loop.simps of_nat_numeral numeral_One

lemma nat_replicate_1: "replicate (nat 1) (0::int) = [0]"
  by simp

lemma nibbles_1: "go_rem 1 16 = Some 1" "go_quo 1 16 = Some 0"
  by (simp_all add: go_rem_def go_quo_def signed_modulo_int_def signed_divide_int_def)

lemma nibbles_257: "go_rem 257 16 = Some 1" "go_quo 257 16 = Some 16"
  by (simp_all add: go_rem_def go_quo_def signed_modulo_int_def signed_divide_int_def)

lemma nibbles_2: "go_rem 2 16 = Some 2" "go_quo 2 16 = Some 0"
  by (simp_all add: go_rem_def go_quo_def signed_modulo_int_def signed_divide_int_def)

lemma bytes_eval: "uint (1 :: byte) = 1" "uint (2 :: byte) = 2"
  by simp_all

lemma replicate_one: "replicate 1 x = [x]"
  by simp

lemmas ev_only2 = replicate_one ev_only nibbles_1 nibbles_2 nibbles_257 bytes_eval nat_replicate_1
  hash_of_def sum_core_def list.map append_Nil





text \<open>
  C1. \<open>Sum\<close> is not free of side effects on the accumulator. The copy that \<open>Sum\<close>
  makes of the state shares the array of the live state, and \<open>absorbStop\<close>, \<open>absorb\<close>
  and the shuffle of \<open>squeeze\<close> write to it. On a fresh hash of size 1 the first
  \<open>Sum(nil)\<close> returns the byte 112 and changes entry 0 of the live array from 0 to 147;
  the second \<open>Sum(nil)\<close>, with no \<open>Write\<close> between, returns the byte 81.
\<close>

theorem C1_Sum_changes_live_array:
  "(do { (d, m) \<leftarrow> NewHash 1 mem0;
         (h1, m1) \<leftarrow> Sum d [] m;
         (h2, m2) \<leftarrow> Sum d [] m1;
         Some (h1, h2, rd m (st_s (d_s d)) 0, rd m1 (st_s (d_s d)) 0) })
   = Some ([112], [81], Some 0, Some 147)"
  by (simp only: ev_only2 cong: bind_weak_cong let_weak_cong N_cong if_weak_cong; simp)

text \<open>
  C2. Writing after \<open>Sum\<close>: the first \<open>Sum\<close> perturbs what the accumulator has
  absorbed, through the array it shares with the live state. On a fresh hash of size 1,
  \<open>Write([1]); Sum(nil); Write([2]); Sum(nil)\<close> returns the byte 190 and then the byte
  113, whereas a fresh hash of size 1 returns the byte 230 after \<open>Write([1, 2])\<close>.
\<close>

theorem C2_write_after_sum_differs:
  "(do { (d, m) \<leftarrow> NewHash 1 mem0;
         (n1, d1, m1) \<leftarrow> Write d [1] m;
         (h1, m2) \<leftarrow> Sum d1 [] m1;
         (n2, d2, m3) \<leftarrow> Write d1 [2] m2;
         (h2, m4) \<leftarrow> Sum d2 [] m3;
         Some (h1, h2) }) = Some ([190], [113])
   \<and> hash_of 1 [1, 2] mem0 = Some [230]"
  by (simp only: ev_only2 cong: bind_weak_cong let_weak_cong N_cong if_weak_cong; simp)

end
